theory Spec2Isabelle
  imports Complex_Main "HOL-Library.Signed_Division" "HOL-Library.Log_Nat"
begin

section \<open>The 3DSS waterfall of deskHPSDR: numeric conventions\<close>

text \<open>
  This theory embeds the spectrum-history pipeline of \<^verbatim>\<open>src/waterfall3dss.c\<close> (and the
  threshold selection of the 2D path in \<^verbatim>\<open>src/waterfall.c\<close>) as HOL functions.

  \<^item> C \<^verbatim>\<open>int\<close> and \<^verbatim>\<open>long long\<close> values are HOL integers: sizes, indices and frequencies
    stay far inside their machine types, so wrap-around is not written out.
    Integer division and remainder are the truncating ones of C (\<open>sdiv\<close>, \<open>smod\<close>).
  \<^item> The producer's tick and the renderer run under one mutex; the model is sequential,
    and \<^verbatim>\<open>vfo[rx->id].frequency\<close> is one value for the whole tick.
  \<^item> C \<^verbatim>\<open>float\<close> and \<^verbatim>\<open>double\<close> values are rationals. Where a floating value is cast to
    an integer (the rotation amount of the frequency block and the bin of the
    resampler) every conversion, division and multiplication is rounded to the nearest
    \<^verbatim>\<open>double\<close> or \<^verbatim>\<open>float\<close>, ties to even, as IEEE 754 arithmetic does (\<open>to_double\<close>,
    \<open>to_float\<close>); the exponent is unbounded, the operands of these two computations being
    machine integers and their quotients, far inside the normal range. In the colour
    mapper and the camera clamps the arithmetic is exact. The history buffer itself only
    copies samples and stores the literal \<^verbatim>\<open>-140.0f\<close>, which is exact in any case.
    Infinities and NaN are not modelled.
  \<^item> A C array is a list. Writes go through \<open>xs[i := v]\<close>; the theorems carry the size
    invariant under which every index written is in range. The read of the producer's
    sample array is a checked read, so that reading outside it is a value of the model.
  \<^item> The OpenGL objects, shaders and vertex uploads are outside the model.
\<close>

type_synonym cfloat = rat
type_synonym cdouble = rat

abbreviation floor_db :: cfloat where
  "floor_db \<equiv> - 140"

text \<open>\<^verbatim>\<open>clampf(x, a, b) = x < a ? a : (x > b ? b : x)\<close>\<close>

definition clampf :: "cfloat \<Rightarrow> cfloat \<Rightarrow> cfloat \<Rightarrow> cfloat" where
  "clampf x a b = (if x < a then a else (if x > b then b else x))"

text \<open>The conversion \<^verbatim>\<open>(int)x\<close> of a floating value: truncation toward zero.\<close>

definition c_int :: "rat \<Rightarrow> int" where
  "c_int x = (if x < 0 then \<lceil>x\<rceil> else \<lfloor>x\<rfloor>)"

text \<open>
  Rounding to a binary floating-point format of precision \<open>p\<close> (24 bits for \<^verbatim>\<open>float\<close>,
  53 for \<^verbatim>\<open>double\<close>), to nearest with ties to even. \<open>binade x\<close> is the exponent \<open>e\<close> with
  \<open>2^e \<le> |x| < 2^(e+1)\<close>; the representable numbers from \<open>2^e\<close> to \<open>2^(e+1)\<close> are the integer
  multiples of \<open>2^(e - p + 1)\<close>, and \<open>x\<close> goes to the nearest of them. Every operation of
  a \<^verbatim>\<open>float\<close> expression is rounded to \<^verbatim>\<open>float\<close>, as on the targets that evaluate in the
  type of the operands (\<^verbatim>\<open>FLT_EVAL_METHOD\<close> 0: x86-64 with SSE, AArch64).
\<close>

definition round_even :: "rat \<Rightarrow> int" where
  "round_even m =
     (let f = \<lfloor>m\<rfloor>; d = m - of_int f
      in if d < 1 / 2 then f else if 1 / 2 < d then f + 1 else if even f then f else f + 1)"

definition binade :: "rat \<Rightarrow> int" where
  "binade x =
     (let (a, b) = quotient_of \<bar>x\<bar>; k = bitlen a - bitlen b
      in if 2 powi k \<le> \<bar>x\<bar> then k else k - 1)"

definition round_to :: "nat \<Rightarrow> rat \<Rightarrow> rat" where
  "round_to p x =
     (if x = 0 then 0
      else (let ulp = 2 powi (binade x - int p + 1)
            in of_int (round_even (x / ulp)) * ulp))"

definition to_float :: "rat \<Rightarrow> cfloat" where
  "to_float = round_to 24"

definition to_double :: "rat \<Rightarrow> cdouble" where
  "to_double = round_to 53"

section \<open>State\<close>

text \<open>
  \<^verbatim>\<open>WaterfallGLState\<close> without its OpenGL handles and scratch buffers. \<open>history\<close> is
  \<open>None\<close> for a NULL pointer.
\<close>

record WaterfallGLState =
  bins :: int
  depth :: int
  head :: int
  history :: "cfloat list option"
  tilt_angle :: cfloat
  zoom_level :: cfloat
  dragging :: bool
  drag_start_y :: cdouble
  drag_start_tilt :: cfloat
  waterfall_zoom :: int
  waterfall_pan :: int
  update_count :: int
  render_count :: int

text \<open>The fields of \<^verbatim>\<open>RECEIVER\<close> that the waterfall code reads or writes.\<close>

record RECEIVER =
  pixels :: int
  zoom :: int
  pan :: int
  sample_rate :: int
  waterfall_frequency :: int
  waterfall_sample_rate :: int
  waterfall_low :: int
  waterfall_high :: int
  waterfall_automatic :: int
  waterfall3dss_palette :: int
  pixel_samples :: "cfloat list"

section \<open>Array primitives\<close>

text \<open>The loop \<^verbatim>\<open>for (i = a; i < b; i++) mem[i] = v;\<close>\<close>

definition store_range :: "cfloat list \<Rightarrow> nat \<Rightarrow> nat \<Rightarrow> cfloat \<Rightarrow> cfloat list" where
  "store_range mem a b v = fold (\<lambda>i m. m[i := v]) [a..<b] mem"

text \<open>
  \<^verbatim>\<open>memmove(mem + dst, mem + src, n * sizeof(float))\<close>: the \<open>n\<close> cells from \<open>src\<close> are
  copied as if through a temporary, so overlapping ranges are fine.
\<close>

definition memmove :: "cfloat list \<Rightarrow> nat \<Rightarrow> nat \<Rightarrow> nat \<Rightarrow> cfloat list" where
  "memmove mem dst src n = take dst mem @ take n (drop src mem) @ drop (dst + n) mem"

text \<open>\<^verbatim>\<open>g_malloc0\<close>: NULL for a request of zero bytes, a zero-filled block otherwise.\<close>

definition g_malloc0 :: "nat \<Rightarrow> cfloat list option" where
  "g_malloc0 n = (if n = 0 then None else Some (replicate n 0))"

text \<open>A read that stays inside the array gives the cell; any other read is \<open>None\<close>.\<close>

definition read_float :: "cfloat list \<Rightarrow> int \<Rightarrow> cfloat option" where
  "read_float mem i = (if 0 \<le> i \<and> i < int (length mem) then Some (mem ! nat i) else None)"

section \<open>SpectrumHistoryBuffer\<close>

text \<open>
  \<^verbatim>\<open>wf_reset_history\<close>: nothing without a buffer; otherwise every one of the
  \<open>depth * bins\<close> cells becomes \<open>-140\<close> and \<open>head\<close> becomes \<open>0\<close>.
\<close>

definition wf_reset_history :: "WaterfallGLState \<Rightarrow> WaterfallGLState" where
  "wf_reset_history st =
     (case history st of
        None \<Rightarrow> st
      | Some mem \<Rightarrow>
          st\<lparr>history := Some (store_range mem 0 (nat (depth st * bins st)) floor_db),
             head := 0\<rparr>)"

text \<open>
  \<^verbatim>\<open>waterfall3dss_init\<close>: a receiver that already has a state keeps it; otherwise a
  zeroed state with \<open>WATERFALL_DEPTH = 120\<close> rows of \<open>rx->pixels\<close> bins is made and reset.
\<close>

definition WATERFALL_DEPTH :: int where
  "WATERFALL_DEPTH = 120"

definition waterfall3dss_init :: "WaterfallGLState option \<Rightarrow> RECEIVER \<Rightarrow> WaterfallGLState" where
  "waterfall3dss_init existing rx =
     (case existing of
        Some st \<Rightarrow> st
      | None \<Rightarrow>
          wf_reset_history
            \<lparr>bins = pixels rx, depth = WATERFALL_DEPTH, head = 0,
             history = g_malloc0 (nat (WATERFALL_DEPTH * pixels rx)),
             tilt_angle = 0, zoom_level = 0, dragging = False,
             drag_start_y = 0, drag_start_tilt = 0,
             waterfall_zoom = 0, waterfall_pan = 0,
             update_count = 0, render_count = 0\<rparr>)"

section \<open>InteractionController\<close>

text \<open>
  The part of \<^verbatim>\<open>waterfall3dss_gl_realize\<close> that touches the modelled state, reached when
  the GL context and the shaders are fine.
\<close>

definition waterfall3dss_gl_realize :: "WaterfallGLState \<Rightarrow> WaterfallGLState" where
  "waterfall3dss_gl_realize st =
     st\<lparr>tilt_angle := 28 / 10, zoom_level := 2, dragging := False,
        waterfall_zoom := 0, waterfall_pan := 0\<rparr>"

datatype GdkScrollDirection =
  GDK_SCROLL_UP | GDK_SCROLL_DOWN | GDK_SCROLL_LEFT | GDK_SCROLL_RIGHT | GDK_SCROLL_SMOOTH

text \<open>
  The handlers take the button or the direction and the pointer's \<open>y\<close> (or the smooth
  \<open>delta_y\<close>) of the event, and give the new state with the \<^verbatim>\<open>gboolean\<close> they return.
\<close>

definition waterfall3dss_button_press ::
  "WaterfallGLState \<Rightarrow> int \<Rightarrow> cdouble \<Rightarrow> WaterfallGLState \<times> bool" where
  "waterfall3dss_button_press st button y =
     (if button = 1
      then (st\<lparr>dragging := True, drag_start_y := y, drag_start_tilt := tilt_angle st\<rparr>, True)
      else (st, False))"

definition waterfall3dss_motion ::
  "WaterfallGLState \<Rightarrow> cdouble \<Rightarrow> WaterfallGLState \<times> bool" where
  "waterfall3dss_motion st y =
     (if \<not> dragging st then (st, False)
      else
        (let delta_y = y - drag_start_y st;
             sensitivity = 2 / 1000;
             tilt = drag_start_tilt st + delta_y * sensitivity
         in (st\<lparr>tilt_angle := clampf tilt 0 5\<rparr>, True)))"

definition waterfall3dss_button_release ::
  "WaterfallGLState \<Rightarrow> int \<Rightarrow> WaterfallGLState \<times> bool" where
  "waterfall3dss_button_release st button =
     (if button = 1 then (st\<lparr>dragging := False\<rparr>, True) else (st, False))"

definition waterfall3dss_scroll ::
  "WaterfallGLState \<Rightarrow> GdkScrollDirection \<Rightarrow> cdouble \<Rightarrow> WaterfallGLState \<times> bool" where
  "waterfall3dss_scroll st direction delta_y =
     (let zoom_step = 15 / 100;
          z = (if direction = GDK_SCROLL_UP then zoom_level st - zoom_step
               else if direction = GDK_SCROLL_DOWN then zoom_level st + zoom_step
               else if direction = GDK_SCROLL_SMOOTH
                    then zoom_level st + delta_y * zoom_step * (1 / 2)
               else zoom_level st)
      in (st\<lparr>zoom_level := clampf z 1 4\<rparr>, True))"

datatype pointer_event =
  ButtonPress int cdouble
| MotionNotify cdouble
| ButtonRelease int
| ScrollEvent GdkScrollDirection cdouble

fun dispatch :: "WaterfallGLState \<Rightarrow> pointer_event \<Rightarrow> WaterfallGLState" where
  "dispatch st (ButtonPress button y) = fst (waterfall3dss_button_press st button y)"
| "dispatch st (MotionNotify y) = fst (waterfall3dss_motion st y)"
| "dispatch st (ButtonRelease button) = fst (waterfall3dss_button_release st button)"
| "dispatch st (ScrollEvent direction delta_y) = fst (waterfall3dss_scroll st direction delta_y)"

definition camera_in_range :: "WaterfallGLState \<Rightarrow> bool" where
  "camera_in_range st \<longleftrightarrow>
     0 \<le> tilt_angle st \<and> tilt_angle st \<le> 5 \<and> 1 \<le> zoom_level st \<and> zoom_level st \<le> 4"

section \<open>FrequencyTracker\<close>

text \<open>
  The body of the row loop of \<^verbatim>\<open>waterfall3dss_update\<close> for the row \<open>r\<close> of a buffer with
  \<open>B\<close> bins: \<^verbatim>\<open>rowp = history + r * bins\<close>, a \<^verbatim>\<open>memmove\<close> of the cells that survive and a
  loop that stores \<open>-140\<close> in the cells left behind, with the clamps of the source.
\<close>

definition rotate_row :: "int \<Rightarrow> int \<Rightarrow> int \<Rightarrow> cfloat list \<Rightarrow> cfloat list" where
  "rotate_row B rotate_bins r mem =
     (let rowp = r * B in
      if rotate_bins < 0 then
        (let nmove = B + rotate_bins;
             nmove = (if nmove < 0 then 0 else nmove);
             nmove = (if nmove > B then B else nmove);
             mem = (if nmove > 0
                    then memmove mem (nat rowp) (nat (rowp - rotate_bins)) (nat nmove)
                    else mem);
             nclear = - rotate_bins;
             nclear = (if nclear > B then B else nclear)
         in if nclear > 0
            then store_range mem (nat (rowp + (B - nclear))) (nat (rowp + B)) floor_db
            else mem)
      else
        (let nmove = B - rotate_bins;
             nmove = (if nmove < 0 then 0 else nmove);
             nmove = (if nmove > B then B else nmove);
             mem = (if nmove > 0
                    then memmove mem (nat (rowp + rotate_bins)) (nat rowp) (nat nmove)
                    else mem);
             nclear = rotate_bins;
             nclear = (if nclear > B then B else nclear)
         in if nclear > 0
            then store_range mem (nat rowp) (nat (rowp + nclear)) floor_db
            else mem))"

text \<open>\<^verbatim>\<open>for (int r = 0; r < st->depth; r++)\<close> over every row of the buffer.\<close>

definition wf_rotate_history :: "WaterfallGLState \<Rightarrow> int \<Rightarrow> WaterfallGLState" where
  "wf_rotate_history st rotate_bins =
     (case history st of
        None \<Rightarrow> st
      | Some mem \<Rightarrow>
          st\<lparr>history :=
               Some (fold (\<lambda>r m. rotate_row (bins st) rotate_bins (int r) m)
                       [0..<nat (depth st)] mem)\<rparr>)"

text \<open>
  \<^verbatim>\<open>double hz_per_bin = (double)rx->sample_rate / (double)st->bins\<close>: two conversions and
  a division, each rounded to \<^verbatim>\<open>double\<close>.
\<close>

definition hz_per_bin :: "RECEIVER \<Rightarrow> int \<Rightarrow> cdouble" where
  "hz_per_bin rx st_bins =
     to_double (to_double (of_int (sample_rate rx)) / to_double (of_int st_bins))"

text \<open>
  The operand of the cast, \<^verbatim>\<open>((double)(rx->waterfall_frequency - current_freq)) / hz_per_bin\<close>:
  the difference is taken in \<^verbatim>\<open>long long\<close>, converted, and divided in \<^verbatim>\<open>double\<close>.
\<close>

definition rotate_quotient :: "RECEIVER \<Rightarrow> int \<Rightarrow> int \<Rightarrow> cdouble" where
  "rotate_quotient rx st_bins current_freq =
     to_double (to_double (of_int (waterfall_frequency rx - current_freq))
                  / hz_per_bin rx st_bins)"

text \<open>\<^verbatim>\<open>int rotate_bins = (int)(...)\<close> of that quotient.\<close>

definition rotate_bins_of :: "RECEIVER \<Rightarrow> int \<Rightarrow> int \<Rightarrow> int" where
  "rotate_bins_of rx st_bins current_freq = c_int (rotate_quotient rx st_bins current_freq)"

text \<open>
  The block \<^verbatim>\<open>// Handle frequency changes\<close>. \<open>current_freq\<close> is \<^verbatim>\<open>vfo[rx->id].frequency\<close>,
  read once.
\<close>

definition wf_track_frequency ::
  "WaterfallGLState \<Rightarrow> RECEIVER \<Rightarrow> int \<Rightarrow> WaterfallGLState \<times> RECEIVER" where
  "wf_track_frequency st rx current_freq =
     (if bins st > 0 then
        (let st' =
           (if waterfall_frequency rx \<noteq> 0 \<and> sample_rate rx = waterfall_sample_rate rx then
              (if waterfall_frequency rx \<noteq> current_freq then
                 (let half = sample_rate rx sdiv 2 in
                  if waterfall_frequency rx < current_freq - half
                     \<or> waterfall_frequency rx > current_freq + half
                  then wf_reset_history st
                  else
                    (let rotate_bins = rotate_bins_of rx (bins st) current_freq
                     in if rotate_bins \<noteq> 0 then wf_rotate_history st rotate_bins else st))
               else st)
            else wf_reset_history st)
         in (st', rx\<lparr>waterfall_frequency := current_freq,
                     waterfall_sample_rate := sample_rate rx\<rparr>))
      else (st, rx))"

text \<open>
  The zoom, pan and bin-count checks that come before: a zoom change resets the buffer,
  a new bin count replaces it by a fresh one of \<open>depth * bins\<close> cells and resets that.
\<close>

definition wf_sync_geometry :: "WaterfallGLState \<Rightarrow> RECEIVER \<Rightarrow> int \<Rightarrow> WaterfallGLState" where
  "wf_sync_geometry st rx screen_bins =
     (let st = (if waterfall_zoom st \<noteq> zoom rx
                then wf_reset_history (st\<lparr>waterfall_zoom := zoom rx\<rparr>)
                else st);
          st = (if waterfall_pan st \<noteq> pan rx then st\<lparr>waterfall_pan := pan rx\<rparr> else st)
      in if bins st \<noteq> screen_bins \<or> history st = None
         then wf_reset_history
                (st\<lparr>bins := screen_bins,
                    history := g_malloc0 (nat (depth st * screen_bins))\<rparr>)
         else st)"

section \<open>Pushing a row\<close>

text \<open>
  The sample stored for destination bin \<open>i\<close>: \<open>-140\<close> when \<open>i + pan\<close> is outside
  \<open>[0, rx->pixels)\<close>, the cell \<open>i + pan\<close> of \<^verbatim>\<open>rx->pixel_samples\<close> otherwise.
\<close>

definition source_sample :: "RECEIVER \<Rightarrow> int \<Rightarrow> cfloat option" where
  "source_sample rx i =
     (let src_idx = i + pan rx;
          pixels_total = pixels rx
      in if src_idx < 0 \<or> src_idx \<ge> pixels_total then Some floor_db
         else read_float (pixel_samples rx) src_idx)"

text \<open>\<^verbatim>\<open>for (int i = 0; i < st->bins; i++) row[i] = sample_db;\<close> with \<open>row\<close> the offset of the row.\<close>

fun copy_row :: "RECEIVER \<Rightarrow> int \<Rightarrow> nat list \<Rightarrow> cfloat list \<Rightarrow> cfloat list option" where
  "copy_row rx row [] mem = Some mem"
| "copy_row rx row (i # is) mem =
     (case source_sample rx (int i) of
        None \<Rightarrow> None
      | Some sample_db \<Rightarrow> copy_row rx row is (mem[nat (row + int i) := sample_db]))"

text \<open>
  The block \<^verbatim>\<open>// Copy new spectrum data\<close> down to \<^verbatim>\<open>st->head = (st->head + 1) % st->depth\<close>.
  \<open>None\<close> stands for a run that reads outside \<^verbatim>\<open>rx->pixel_samples\<close> or has no buffer to
  write to.
\<close>

definition wf_store_row :: "WaterfallGLState \<Rightarrow> RECEIVER \<Rightarrow> WaterfallGLState option" where
  "wf_store_row st rx =
     (case history st of
        None \<Rightarrow> None
      | Some mem \<Rightarrow>
          (case copy_row rx (head st * bins st) [0..<nat (bins st)] mem of
             None \<Rightarrow> None
           | Some mem' \<Rightarrow>
               Some (st\<lparr>history := Some mem', head := (head st + 1) smod depth st\<rparr>)))"

fun push_rows :: "WaterfallGLState \<Rightarrow> RECEIVER list \<Rightarrow> WaterfallGLState option" where
  "push_rows st [] = Some st"
| "push_rows st (rx # rxs) =
     (case wf_store_row st rx of None \<Rightarrow> None | Some st' \<Rightarrow> push_rows st' rxs)"

section \<open>The update tick\<close>

text \<open>
  \<^verbatim>\<open>waterfall3dss_update\<close>. \<open>widget\<close> is \<^verbatim>\<open>rx->waterfall\<close>: \<open>None\<close> for NULL (for which
  \<^verbatim>\<open>gtk_widget_get_allocated_width\<close> gives 0), else the allocated width. The result is the
  new display state, the new receiver and whether \<^verbatim>\<open>gtk_gl_area_queue_render\<close> was called.
\<close>

definition waterfall3dss_update ::
  "WaterfallGLState \<Rightarrow> RECEIVER \<Rightarrow> int \<Rightarrow> int option
     \<Rightarrow> (WaterfallGLState \<times> RECEIVER \<times> bool) option" where
  "waterfall3dss_update st rx vfo_frequency widget =
     (if history st = None then Some (st, rx, False)
      else
        (let screen_w = (case widget of None \<Rightarrow> 0 | Some w \<Rightarrow> w);
             screen_w = (if screen_w \<le> 0 then 800 else screen_w);
             bins = screen_w
         in if bins \<le> 2 then Some (st, rx, False)
            else
              (let st = wf_sync_geometry st rx bins;
                   (st, rx) = wf_track_frequency st rx vfo_frequency;
                   st = st\<lparr>update_count := update_count st + 1\<rparr>
               in if update_count st < 5 then Some (st, rx, widget \<noteq> None)
                  else
                    (case wf_store_row st rx of
                       None \<Rightarrow> None
                     | Some st \<Rightarrow> Some (st, rx, widget \<noteq> None)))))"

text \<open>
  The size invariant of the display state: a buffer of exactly \<open>depth * bins\<close> cells, a
  positive depth and bin count, and \<open>head\<close> inside \<open>[0, depth)\<close>. Under it every write of the
  model is in range.
\<close>

definition wf_valid :: "WaterfallGLState \<Rightarrow> bool" where
  "wf_valid st \<longleftrightarrow>
     (\<exists>mem. history st = Some mem \<and> int (length mem) = depth st * bins st)
     \<and> 0 < depth st \<and> 0 < bins st \<and> 0 \<le> head st \<and> head st < depth st"

section \<open>Reading rows back: the renderer\<close>

text \<open>\<^verbatim>\<open>row0 = (st->head - d - 1 + D) % D\<close>, the physical row of logical age \<open>d\<close>.\<close>

definition row_index :: "WaterfallGLState \<Rightarrow> int \<Rightarrow> int" where
  "row_index st d = (head st - d - 1 + depth st) smod depth st"

text \<open>The \<open>B\<close> cells of physical row \<open>r\<close>.\<close>

definition history_row :: "cfloat list \<Rightarrow> int \<Rightarrow> int \<Rightarrow> cfloat list" where
  "history_row mem B r = map (\<lambda>i. mem ! nat (r * B + int i)) [0..<nat B]"

definition row_at_age :: "WaterfallGLState \<Rightarrow> int \<Rightarrow> cfloat list" where
  "row_at_age st d =
     (case history st of None \<Rightarrow> [] | Some mem \<Rightarrow> history_row mem (bins st) (row_index st d))"

text \<open>The row that a tick stores when every read is in range.\<close>

definition delivered_row :: "RECEIVER \<Rightarrow> int \<Rightarrow> cfloat list" where
  "delivered_row rx B =
     map (\<lambda>i. if int i + pan rx < 0 \<or> int i + pan rx \<ge> pixels rx then floor_db
               else pixel_samples rx ! nat (int i + pan rx)) [0..<nat B]"

text \<open>
  The resampler of \<^verbatim>\<open>waterfall3dss_gl_render\<close>:
  \<^verbatim>\<open>float bin_f = (float)x / (float)(W - 1) * (float)(B - 1); int bin_i = (int)bin_f;\<close>
  \<^verbatim>\<open>if (bin_i >= B - 1) bin_i = B - 2;\<close>
  The three conversions, the division and the multiplication are each rounded to \<^verbatim>\<open>float\<close>.
\<close>

definition bin_f_of :: "int \<Rightarrow> int \<Rightarrow> int \<Rightarrow> cfloat" where
  "bin_f_of W B x =
     to_float (to_float (to_float (of_int x) / to_float (of_int (W - 1)))
                 * to_float (of_int (B - 1)))"

definition bin_index :: "int \<Rightarrow> int \<Rightarrow> int \<Rightarrow> int" where
  "bin_index W B x =
     (let bin_f = bin_f_of W B x;
          bin_i = c_int bin_f
      in if bin_i \<ge> B - 1 then B - 2 else bin_i)"

text \<open>
  The two rows \<^verbatim>\<open>row_tmp0\<close>, \<^verbatim>\<open>row_tmp1\<close> that the renderer fills for the strip at depth \<open>d\<close>
  and screen width \<open>W\<close>.
\<close>

definition resample_strip ::
  "WaterfallGLState \<Rightarrow> cfloat list \<Rightarrow> int \<Rightarrow> int \<Rightarrow> cfloat list \<times> cfloat list" where
  "resample_strip st mem W d =
     (let D = depth st; B = bins st;
          row0 = (head st - d - 1 + D) smod D;
          row1 = (head st - d - 2 + D) smod D
      in (map (\<lambda>x. mem ! nat (row0 * B + bin_index W B (int x))) [0..<nat W],
          map (\<lambda>x. mem ! nat (row1 * B + bin_index W B (int x))) [0..<nat W]))"

section \<open>ColorHeightMapper\<close>

text \<open>\<^verbatim>\<open>color_from_palette\<close>, the seven palettes and the gray default.\<close>

definition color_from_palette :: "int \<Rightarrow> cfloat \<Rightarrow> cfloat \<times> cfloat \<times> cfloat" where
  "color_from_palette palette p0 =
     (let p = clampf p0 0 1 in
      if palette = 0 then
        (if p < 25 / 100 then (let t = p / (25 / 100) in (0, t, 1))
         else if p < 5 / 10 then (let t = (p - 25 / 100) / (25 / 100) in (0, 1, 1 - t))
         else if p < 75 / 100 then (let t = (p - 5 / 10) / (25 / 100) in (t, 1, 0))
         else (let t = (p - 75 / 100) / (25 / 100) in (1, 1 - t * (5 / 10), 0)))
      else if palette = 1 then (p * (3 / 10), 5 / 10 + p * (5 / 10), 7 / 10 + p * (3 / 10))
      else if palette = 2 then (p * (2 / 10), 3 / 10 + p * (7 / 10), p * (1 / 10))
      else if palette = 3 then (p, p, p)
      else if palette = 4 then
        (if p < 33 / 100 then (let t = p / (33 / 100) in (t, 0, 0))
         else if p < 66 / 100 then (let t = (p - 33 / 100) / (33 / 100) in (1, t, 0))
         else (let t = (p - 66 / 100) / (34 / 100) in (1, 1, t)))
      else if palette = 5 then (0 + p, 1 - p * (5 / 10), 1 - p * (5 / 10))
      else if palette = 6 then
        (if p < 33 / 100
         then (let t = p / (33 / 100) in (1 - t * (8 / 10), 1 - t * (6 / 10), 1))
         else if p < 66 / 100
         then (let t = (p - 33 / 100) / (33 / 100)
               in (2 / 10 + t * (5 / 10), 4 / 10 + t * (1 / 10), 1))
         else (let t = (p - 66 / 100) / (34 / 100)
               in (7 / 10 + t * (3 / 10), 5 / 10 - t * (5 / 10), 1 - t * 1)))
      else (p, p, p))"

definition noise_threshold :: cfloat where
  "noise_threshold = 35 / 100"

text \<open>\<^verbatim>\<open>sample_to_color\<close>: the result is \<open>(r, g, b, a, h01)\<close>.\<close>

definition sample_to_color ::
  "RECEIVER \<Rightarrow> cfloat \<Rightarrow> cfloat \<Rightarrow> cfloat \<times> cfloat \<times> cfloat \<times> cfloat \<times> cfloat" where
  "sample_to_color rx sample_db dist01 =
     (let db_min = of_int (waterfall_low rx);
          db_max = of_int (waterfall_high rx);
          p = (sample_db - db_min) / (db_max - db_min);
          p = clampf p 0 1;
          palette = waterfall3dss_palette rx
      in if p < noise_threshold then (0, 0, 0, 1, 0)
         else
           (let signal = (p - noise_threshold) / (1 - noise_threshold);
                signal = signal * signal;
                h01 = clampf (signal * (18 / 10)) 0 1;
                (r, g, b) =
                  (if palette = 6 then
                     (if dist01 < 33 / 100
                      then (let t = dist01 / (33 / 100)
                            in (1 - t * (8 / 10), 1 - t * (6 / 10), 1))
                      else if dist01 < 66 / 100
                      then (let t = (dist01 - 33 / 100) / (33 / 100)
                            in (2 / 10 + t * (5 / 10), 4 / 10 + t * (1 / 10), 1))
                      else (let t = (dist01 - 66 / 100) / (34 / 100)
                            in (7 / 10 + t * (3 / 10), 5 / 10 - t * (5 / 10), 1 - t * 1)))
                   else
                     (let (target_r, target_g, target_b) = color_from_palette palette 1
                      in (1 + dist01 * (target_r - 1),
                          1 + dist01 * (target_g - 1),
                          1 + dist01 * (target_b - 1))))
            in (r * signal, g * signal, b * signal, 1, h01)))"

text \<open>
  Two parts of \<^verbatim>\<open>sample_to_color\<close> by name, for the statements about it: the normalised
  level \<open>p\<close> of a sample, and the colour before it is scaled by the signal (the Plasma
  gradient over \<open>dist01\<close>, or white fading to the palette colour at intensity \<open>1.0\<close>).
\<close>

definition level :: "RECEIVER \<Rightarrow> cfloat \<Rightarrow> cfloat" where
  "level rx sample_db =
     clampf ((sample_db - of_int (waterfall_low rx))
               / (of_int (waterfall_high rx) - of_int (waterfall_low rx))) 0 1"

definition base_color :: "int \<Rightarrow> cfloat \<Rightarrow> cfloat \<times> cfloat \<times> cfloat" where
  "base_color palette dist01 =
     (if palette = 6 then
        (if dist01 < 33 / 100
         then (let t = dist01 / (33 / 100) in (1 - t * (8 / 10), 1 - t * (6 / 10), 1))
         else if dist01 < 66 / 100
         then (let t = (dist01 - 33 / 100) / (33 / 100)
               in (2 / 10 + t * (5 / 10), 4 / 10 + t * (1 / 10), 1))
         else (let t = (dist01 - 66 / 100) / (34 / 100)
               in (7 / 10 + t * (3 / 10), 5 / 10 - t * (5 / 10), 1 - t * 1)))
      else
        (let (target_r, target_g, target_b) = color_from_palette palette 1
         in (1 + dist01 * (target_r - 1),
             1 + dist01 * (target_g - 1),
             1 + dist01 * (target_b - 1))))"

text \<open>
  The thresholds of the 2D path, \<^verbatim>\<open>waterfall_update\<close> in \<^verbatim>\<open>waterfall.c\<close>: with
  \<^verbatim>\<open>rx->waterfall_automatic\<close> set, the mean of the \<open>width\<close> samples of the row plus the
  gain correction \<open>soffset\<close> minus 5, and 55 dB above that; else the configured values.
\<close>

definition waterfall_thresholds_2d :: "RECEIVER \<Rightarrow> int \<Rightarrow> cfloat \<Rightarrow> cfloat \<times> cfloat" where
  "waterfall_thresholds_2d rx width soffset =
     (if waterfall_automatic rx \<noteq> 0 then
        (let average = fold (\<lambda>i acc. acc + pixel_samples rx ! i) [0..<nat width] 0;
             wf_low = average / of_int width + soffset - 5;
             wf_high = wf_low + 55
         in (wf_low, wf_high))
      else (of_int (waterfall_low rx), of_int (waterfall_high rx)))"

section \<open>Example inputs\<close>

text \<open>
  A receiver at 48 kHz that delivers \<open>samples\<close>, with no pan, whose waterfall was last
  aligned at \<open>last_frequency\<close>; and a display state of \<open>D\<close> rows of \<open>B\<close> bins with the
  buffer \<open>mem\<close> and the write position \<open>h\<close>, past its first ticks.
\<close>

definition example_receiver :: "cfloat list \<Rightarrow> int \<Rightarrow> RECEIVER" where
  "example_receiver samples last_frequency =
     \<lparr>pixels = int (length samples), zoom = 1, pan = 0, sample_rate = 48000,
      waterfall_frequency = last_frequency, waterfall_sample_rate = 48000,
      waterfall_low = - 100, waterfall_high = - 40, waterfall_automatic = 0,
      waterfall3dss_palette = 0, pixel_samples = samples\<rparr>"

definition example_state :: "int \<Rightarrow> int \<Rightarrow> int \<Rightarrow> cfloat list \<Rightarrow> WaterfallGLState" where
  "example_state D B h mem =
     \<lparr>bins = B, depth = D, head = h, history = Some mem,
      tilt_angle = 28 / 10, zoom_level = 2, dragging = False,
      drag_start_y = 0, drag_start_tilt = 0,
      waterfall_zoom = 1, waterfall_pan = 0,
      update_count = 5, render_count = 0\<rparr>"

section \<open>Properties of the rounding\<close>

lemma round_even_of_int [simp]: "round_even (of_int n) = n"
  by (simp add: round_even_def)

lemma round_even_cases: "round_even m = \<lfloor>m\<rfloor> \<or> round_even m = \<lfloor>m\<rfloor> + 1"
  by (simp add: round_even_def Let_def)

lemma round_even_mono:
  assumes "m1 \<le> m2"
  shows "round_even m1 \<le> round_even m2"
proof (cases "\<lfloor>m1\<rfloor> = \<lfloor>m2\<rfloor>")
  case True
  with assms show ?thesis by (simp add: round_even_def Let_def)
next
  case False
  with assms have "\<lfloor>m1\<rfloor> < \<lfloor>m2\<rfloor>" using floor_mono [OF assms] by linarith
  with round_even_cases [of m1] round_even_cases [of m2] show ?thesis by linarith
qed

text \<open>\<open>round_even\<close> picks an integer nearest to its argument.\<close>

lemma round_even_nearest: "\<bar>of_int (round_even m) - m\<bar> \<le> \<bar>of_int k - m\<bar>"
proof -
  define f where "f = \<lfloor>m\<rfloor>"
  have fl: "of_int f \<le> m" "m < of_int f + 1" unfolding f_def by linarith+
  have r: "round_even m = (if m - of_int f < 1 / 2 then f else if 1 / 2 < m - of_int f then f + 1
                           else if even f then f else f + 1)"
    by (simp add: round_even_def Let_def f_def)
  show ?thesis
  proof (cases "k \<le> f")
    case True
    then have "(of_int k :: rat) \<le> of_int f" by simp
    with fl show ?thesis unfolding r by (auto simp: abs_if)
  next
    case False
    then have "f + 1 \<le> k" by simp
    then have "(of_int (f + 1) :: rat) \<le> of_int k" by (simp only: of_int_le_iff)
    then have "(of_int f :: rat) + 1 \<le> of_int k" by simp
    with fl show ?thesis unfolding r by (auto simp: abs_if)
  qed
qed

lemma pow2_bitlen:
  assumes "0 < a"
  shows "(2::rat) powi (bitlen a - 1) \<le> of_int a \<and> of_int a < (2::rat) powi bitlen a"
proof -
  from bitlen_bounds [OF assms]
  have lo: "2 ^ nat (bitlen a - 1) \<le> a" and hi: "a < 2 ^ nat (bitlen a)" by simp_all
  have ge: "1 \<le> bitlen a" using assms bitlen_eq_zero_iff [of a] bitlen_nonneg [of a] by linarith
  have "(2::rat) powi (bitlen a - 1) = of_int (2 ^ nat (bitlen a - 1))"
    using ge by (simp add: power_int_nonneg_exp)
  moreover have "(2::rat) powi bitlen a = of_int (2 ^ nat (bitlen a))"
    using ge by (simp add: power_int_nonneg_exp)
  ultimately show ?thesis using lo hi by (simp only: of_int_le_iff of_int_less_iff)
qed

text \<open>\<open>binade x\<close> is the exponent of the power of two at or below \<open>|x|\<close>.\<close>

lemma binade_bounds:
  assumes "x \<noteq> 0"
  shows "2 powi binade x \<le> \<bar>x\<bar> \<and> \<bar>x\<bar> < 2 powi (binade x + 1)"
proof -
  obtain a b where q: "quotient_of \<bar>x\<bar> = (a, b)" by force
  have b: "0 < b" by (rule quotient_of_denom_pos [OF q])
  have x: "\<bar>x\<bar> = of_int a / of_int b" by (rule quotient_of_div [OF q])
  have "0 < \<bar>x\<bar>" using assms by simp
  then have a: "0 < a" unfolding x using b by (simp add: zero_less_divide_iff)
  define k where "k = bitlen a - bitlen b"
  note A = pow2_bitlen [OF a] and B = pow2_bitlen [OF b]
  have bpos: "(0::rat) < of_int b" using b by simp
  have "(2::rat) powi (k - 1) * of_int b < 2 powi (k - 1) * 2 powi bitlen b"
    using B by simp
  also have "\<dots> = 2 powi (bitlen a - 1)"
    by (simp add: k_def flip: power_int_add)
  also have "\<dots> \<le> of_int a" using A by simp
  finally have lo: "2 powi (k - 1) < \<bar>x\<bar>"
    unfolding x using bpos by (simp add: pos_less_divide_eq)
  have "of_int a < (2::rat) powi bitlen a" using A by simp
  also have "\<dots> = 2 powi (k + 1) * 2 powi (bitlen b - 1)"
    by (simp add: k_def flip: power_int_add)
  also have "\<dots> \<le> 2 powi (k + 1) * of_int b"
    using B by simp
  finally have hi: "\<bar>x\<bar> < 2 powi (k + 1)"
    unfolding x using bpos by (simp add: pos_divide_less_eq)
  have bd: "binade x = (if 2 powi k \<le> \<bar>x\<bar> then k else k - 1)"
    by (simp add: binade_def q k_def)
  show ?thesis using lo hi by (auto simp: bd)
qed

lemma pow2_less_D:
  assumes "(2::rat) powi m < 2 powi n"
  shows "m < n"
proof (rule ccontr)
  assume "\<not> m < n"
  then have "n \<le> m" by simp
  from power_int_increasing [OF this, of "2::rat"] have "(2::rat) powi n \<le> 2 powi m" by simp
  with assms show False by simp
qed

lemma round_to_0 [simp]: "round_to p 0 = 0"
  by (simp add: round_to_def)

text \<open>No multiple of the unit in the last place of \<open>x\<close> is nearer to \<open>x\<close> than \<open>round_to p x\<close>.\<close>

lemma round_to_nearest:
  "\<bar>round_to p x - x\<bar> \<le> \<bar>of_int k * 2 powi (binade x - int p + 1) - x\<bar>"
proof (cases "x = 0")
  case True
  then show ?thesis by simp
next
  case False
  define u :: rat where "u = 2 powi (binade x - int p + 1)"
  have upos: "0 < u" by (simp add: u_def)
  have r: "round_to p x = of_int (round_even (x / u)) * u"
    using False by (simp add: round_to_def Let_def u_def)
  have sc: "\<bar>a * u - x\<bar> = \<bar>a - x / u\<bar> * u" for a :: rat
  proof -
    have "a * u - x = (a - x / u) * u" using upos by (simp add: left_diff_distrib)
    then show ?thesis using upos by (simp only: abs_mult abs_of_pos)
  qed
  have "\<bar>of_int (round_even (x / u)) * u - x\<bar> = \<bar>of_int (round_even (x / u)) - x / u\<bar> * u"
    by (rule sc)
  also have "\<dots> \<le> \<bar>of_int k - x / u\<bar> * u"
    using round_even_nearest [of "x / u" k] upos by (simp only: mult_le_cancel_right_pos)
  also have "\<dots> = \<bar>of_int k * u - x\<bar>"
    by (rule sc [symmetric])
  finally show ?thesis unfolding r u_def .
qed

text \<open>An integer below \<open>2^p\<close> in magnitude is representable: rounding leaves it alone.\<close>

lemma round_to_of_int:
  assumes "\<bar>n\<bar> < 2 ^ p"
  shows "round_to p (of_int n) = of_int n"
proof (cases "n = 0")
  case True
  then show ?thesis by simp
next
  case False
  define e where "e = binade (of_int n)"
  have "(2::rat) powi e \<le> \<bar>of_int n\<bar>"
    unfolding e_def using binade_bounds [of "of_int n"] False by simp
  also have "\<dots> < 2 powi int p"
    using assms by (simp flip: of_int_abs of_int_power)
  finally have "e < int p" by (rule pow2_less_D)
  then obtain j where j: "int p - 1 - e = int j"
    by (metis diff_ge_0_iff_ge nonneg_int_cases zle_diff1_eq)
  have u: "(2::rat) powi (e - int p + 1) = 1 / 2 ^ j"
  proof -
    have "e - int p + 1 = - int j" using j by simp
    then show ?thesis by (simp add: power_int_minus_divide)
  qed
  have "of_int n / (2::rat) powi (e - int p + 1) = of_int (n * 2 ^ j)"
    unfolding u by simp
  then have "round_even (of_int n / (2::rat) powi (e - int p + 1)) = n * 2 ^ j"
    by (simp only: round_even_of_int)
  then show ?thesis using False unfolding round_to_def Let_def e_def [symmetric] u by simp
qed

text \<open>Rounding a positive number stays inside its binade, end points included.\<close>

lemma round_to_range:
  assumes x: "0 < x" and p: "0 < p"
  shows "2 powi binade x \<le> round_to p x \<and> round_to p x \<le> 2 powi (binade x + 1)"
proof -
  define e where "e = binade x"
  define u :: rat where "u = 2 powi (e - int p + 1)"
  have upos: "0 < u" by (simp add: u_def)
  from binade_bounds [of x] x
  have lo: "2 powi e \<le> x" and hi: "x < 2 powi (e + 1)" by (simp_all add: e_def)
  have r: "round_to p x = of_int (round_even (x / u)) * u"
    using x by (simp add: round_to_def Let_def e_def u_def)
  obtain q where q: "p = Suc q" using p by (cases p) simp_all
  have e1: "(2::rat) powi e = of_int (2 ^ q) * u"
    by (simp add: u_def q flip: power_int_of_nat power_int_add)
  have e2: "(2::rat) powi (e + 1) = of_int (2 ^ p) * u"
    by (simp add: u_def flip: power_int_of_nat power_int_add)
  have "of_int (2 ^ q) \<le> x / u" using lo upos unfolding e1 by (simp add: pos_le_divide_eq)
  from round_even_mono [OF this] have a: "2 ^ q \<le> round_even (x / u)"
    by (simp only: round_even_of_int)
  have "x / u \<le> of_int (2 ^ p)" using hi upos unfolding e2 by (simp add: pos_divide_le_eq)
  from round_even_mono [OF this] have b: "round_even (x / u) \<le> 2 ^ p"
    by (simp only: round_even_of_int)
  have "of_int (2 ^ q) * u \<le> of_int (round_even (x / u)) * u"
    using a upos by (simp only: mult_le_cancel_right_pos of_int_le_iff)
  moreover have "of_int (round_even (x / u)) * u \<le> of_int (2 ^ p) * u"
    using b upos by (simp only: mult_le_cancel_right_pos of_int_le_iff)
  ultimately show ?thesis unfolding r e_def [symmetric] e1 e2 by simp
qed

lemma round_to_nonneg:
  assumes "0 \<le> x" "0 < p"
  shows "0 \<le> round_to p x"
proof (cases "x = 0")
  case True then show ?thesis by simp
next
  case False
  with assms have "0 < x" by simp
  from round_to_range [OF this assms(2)] show ?thesis
    by (meson order_trans zero_le_numeral zero_le_power_int)
qed

text \<open>Rounding is monotone on the non-negative numbers.\<close>

lemma round_to_mono:
  assumes x: "0 \<le> x" and xy: "x \<le> y" and p: "0 < p"
  shows "round_to p x \<le> round_to p y"
proof (cases "x = 0")
  case True
  then show ?thesis using round_to_nonneg [of y p] xy p by simp
next
  case False
  with x have xpos: "0 < x" by simp
  with xy have ypos: "0 < y" by simp
  from binade_bounds [of x] binade_bounds [of y] xpos ypos
  have "(2::rat) powi binade x \<le> x" "y < 2 powi (binade y + 1)" by simp_all
  with xy have "(2::rat) powi binade x < 2 powi (binade y + 1)" by linarith
  then have le: "binade x \<le> binade y" using pow2_less_D by fastforce
  show ?thesis
  proof (cases "binade x = binade y")
    case True
    define u :: rat where "u = 2 powi (binade y - int p + 1)"
    have upos: "0 < u" by (simp add: u_def)
    have "x / u \<le> y / u" using xy upos by (simp add: divide_right_mono)
    from round_even_mono [OF this] upos
    have "of_int (round_even (x / u)) * u \<le> of_int (round_even (y / u)) * u"
      by (simp only: mult_le_cancel_right_pos of_int_le_iff)
    then show ?thesis using xpos ypos True by (simp add: round_to_def Let_def u_def)
  next
    case False
    with le have "binade x + 1 \<le> binade y" by simp
    then have "(2::rat) powi (binade x + 1) \<le> 2 powi binade y"
      by (intro power_int_increasing) simp_all
    with round_to_range [OF xpos p] round_to_range [OF ypos p] show ?thesis by linarith
  qed
qed

lemma to_float_0 [simp]: "to_float 0 = 0"
  by (simp add: to_float_def)

lemma to_double_0 [simp]: "to_double 0 = 0"
  by (simp add: to_double_def)

lemma to_float_of_int:
  assumes "\<bar>n\<bar> < 16777216"
  shows "to_float (of_int n) = of_int n"
  unfolding to_float_def using assms by (intro round_to_of_int) simp

lemma to_float_mono:
  assumes "0 \<le> x" "x \<le> y"
  shows "to_float x \<le> to_float y"
  unfolding to_float_def using assms by (intro round_to_mono) simp_all

lemma to_float_nonneg:
  assumes "0 \<le> x"
  shows "0 \<le> to_float x"
  unfolding to_float_def using assms by (intro round_to_nonneg) simp_all

lemma to_float_ge_1:
  assumes "1 \<le> n"
  shows "1 \<le> to_float (of_int n)"
proof -
  have "to_float (of_int 1) \<le> to_float (of_int n)"
    using assms by (intro to_float_mono) simp_all
  moreover have "to_float (of_int 1) = of_int 1" by (rule to_float_of_int) simp
  ultimately show ?thesis by simp
qed

section \<open>Properties of the array primitives\<close>

lemma length_store_range [simp]: "length (store_range mem a b v) = length mem"
  by (induction b) (simp_all add: store_range_def)

lemma nth_store_range:
  "i < length mem \<Longrightarrow> store_range mem a b v ! i = (if a \<le> i \<and> i < b then v else mem ! i)"
proof (induction b)
  case 0
  then show ?case by (simp add: store_range_def)
next
  case (Suc b)
  show ?case
  proof (cases "a \<le> b")
    case True
    then have step: "store_range mem a (Suc b) v = (store_range mem a b v)[b := v]"
      by (simp add: store_range_def)
    show ?thesis
    proof (cases "i = b")
      case True
      with Suc.prems step \<open>a \<le> b\<close> show ?thesis by simp
    next
      case False
      with Suc step show ?thesis by auto
    qed
  next
    case False
    then show ?thesis using Suc by (simp add: store_range_def)
  qed
qed

lemma length_memmove [simp]:
  "src + n \<le> length mem \<Longrightarrow> dst + n \<le> length mem \<Longrightarrow> length (memmove mem dst src n) = length mem"
  by (simp add: memmove_def)

lemma nth_memmove:
  assumes "src + n \<le> length mem" "dst + n \<le> length mem" "i < length mem"
  shows "memmove mem dst src n ! i = (if dst \<le> i \<and> i < dst + n then mem ! (src + (i - dst)) else mem ! i)"
proof -
  define pre where "pre = take dst mem"
  define mid where "mid = take n (drop src mem)"
  define post where "post = drop (dst + n) mem"
  have lpre: "length pre = dst" using assms by (simp add: pre_def)
  have lmid: "length mid = n" using assms by (simp add: mid_def)
  have mm: "memmove mem dst src n = pre @ mid @ post"
    by (simp add: memmove_def pre_def mid_def post_def)
  consider "i < dst" | "dst \<le> i" "i < dst + n" | "dst + n \<le> i" by linarith
  then show ?thesis
  proof cases
    case 1
    then have "(pre @ mid @ post) ! i = pre ! i" by (simp add: nth_append lpre)
    also have "\<dots> = mem ! i" using 1 by (simp add: pre_def)
    finally show ?thesis using 1 mm by simp
  next
    case 2
    then have lt: "i - dst < n" by linarith
    have "(pre @ mid @ post) ! i = mid ! (i - dst)"
      using 2 lt by (simp add: nth_append lpre lmid)
    also have "\<dots> = mem ! (src + (i - dst))" using lt assms by (simp add: mid_def)
    finally show ?thesis using 2 mm by simp
  next
    case 3
    then have ge: "\<not> i < dst" "\<not> i - dst < n" by linarith+
    then have "(pre @ mid @ post) ! i = post ! (i - dst - n)"
      by (simp add: nth_append lpre lmid)
    also have "\<dots> = mem ! i" using 3 assms by (simp add: post_def)
    finally show ?thesis using 3 mm by simp
  qed
qed

lemma shift_left_nth:
  assumes "base + n \<le> length mem" "m \<le> n" "j < length mem"
  shows "store_range (memmove mem base (base + m) (n - m)) (base + (n - m)) (base + n) v ! j =
           (if base \<le> j \<and> j < base + n then (if j + m < base + n then mem ! (j + m) else v)
            else mem ! j)"
  using assms by (auto simp add: nth_store_range nth_memmove ac_simps)

lemma shift_right_nth:
  assumes "base + n \<le> length mem" "m \<le> n" "j < length mem"
  shows "store_range (memmove mem (base + m) base (n - m)) base (base + m) v ! j =
           (if base \<le> j \<and> j < base + n then (if base + m \<le> j then mem ! (j - m) else v)
            else mem ! j)"
  using assms by (auto simp add: nth_store_range nth_memmove)

lemma memmove_self:
  "base + n \<le> length mem \<Longrightarrow> memmove mem base base n = mem"
  by (rule nth_equalityI) (simp_all add: nth_memmove)

lemma rotate_row_nth:
  assumes B: "0 \<le> B" and r: "0 \<le> r * B" and fit: "r * B + B \<le> int (length mem)"
    and j: "j < length mem"
  shows "rotate_row B k r mem ! j =
           (if r * B \<le> int j \<and> int j < r * B + B
            then (if 0 \<le> int j - r * B - k \<and> int j - r * B - k < B
                  then mem ! nat (int j - k) else floor_db)
            else mem ! j)"
proof -
  define base where "base = nat (r * B)"
  define n where "n = nat B"
  have n: "B = int n" using B by (simp add: n_def)
  have b: "r * int n = int base" using r n by (simp add: base_def)
  have "int base + int n \<le> int (length mem)" using fit unfolding n b .
  then have fit': "base + n \<le> length mem" by linarith
  consider (left) "k < 0" "- k < B" | (clear_l) "k < 0" "B \<le> - k"
    | (zero) "k = 0" | (right) "0 < k" "k < B" | (clear_r) "0 < k" "B \<le> k"
    by linarith
  then show ?thesis
  proof cases
    case left
    define m where "m = nat (- k)"
    have k: "k = - int m" and mn: "m \<le> n" "m < n" using left n by (simp_all add: m_def)
    have "rotate_row B k r mem =
            store_range (memmove mem base (base + m) (n - m)) (base + (n - m)) (base + n) floor_db"
      using left mn unfolding rotate_row_def Let_def b n k
      by (simp add: nat_add_distrib nat_diff_distrib)
    then show ?thesis
      using shift_left_nth [OF fit' mn(1) j, of floor_db]
      unfolding b n k by (auto simp: nat_add_distrib)
  next
    case clear_l
    have "rotate_row B k r mem = store_range mem base (base + n) floor_db"
      using clear_l unfolding rotate_row_def Let_def n b
      by (cases "n = 0") (auto simp add: nat_add_distrib store_range_def)
    then show ?thesis
      using clear_l j unfolding n b by (auto simp: nth_store_range)
  next
    case zero
    have "rotate_row B k r mem = mem"
      using zero fit' unfolding rotate_row_def Let_def n b
      by (simp add: memmove_self)
    then show ?thesis
      using zero unfolding n b by auto
  next
    case right
    define m where "m = nat k"
    have k: "k = int m" and mn: "m \<le> n" "m < n" "0 < m" using right n by (simp_all add: m_def)
    have "rotate_row B k r mem =
            store_range (memmove mem (base + m) base (n - m)) base (base + m) floor_db"
      using right mn unfolding rotate_row_def Let_def n b k
      by (simp add: nat_add_distrib nat_diff_distrib)
    then show ?thesis
      using shift_right_nth [OF fit' mn(1) j, of floor_db]
      unfolding n b k by (auto simp: nat_diff_distrib)
  next
    case clear_r
    have "rotate_row B k r mem = store_range mem base (base + n) floor_db"
      using clear_r unfolding rotate_row_def Let_def n b
      by (cases "n = 0") (auto simp add: nat_add_distrib store_range_def)
    then show ?thesis
      using clear_r j unfolding n b by (auto simp: nth_store_range)
  qed
qed

lemma rotate_row_length:
  assumes B: "0 \<le> B" and r: "0 \<le> r * B" and fit: "r * B + B \<le> int (length mem)"
  shows "length (rotate_row B k r mem) = length mem"
proof -
  define base where "base = nat (r * B)"
  define n where "n = nat B"
  have n: "B = int n" using B by (simp add: n_def)
  have b: "r * int n = int base" using r n by (simp add: base_def)
  have "int base + int n \<le> int (length mem)" using fit unfolding n b .
  then have fit': "base + n \<le> length mem" by linarith
  show ?thesis
    using fit' unfolding rotate_row_def Let_def n b
    by (auto simp: nat_add_distrib nat_diff_distrib)
qed

lemma row_cell_cases:
  assumes "0 \<le> i" "i < B"
  shows "(int n * B \<le> int r * B + i \<and> int r * B + i < int n * B + B) \<longleftrightarrow> r = n"
proof -
  have Bpos: "0 \<le> B" using assms by linarith
  consider "r < n" | "r = n" | "n < r" by linarith
  then show ?thesis
  proof cases
    case 1
    then have "(int r + 1) * B \<le> int n * B" using Bpos by (intro mult_right_mono) simp_all
    then have "int r * B + B \<le> int n * B" by (simp add: algebra_simps)
    with 1 assms show ?thesis by auto
  next
    case 2
    with assms show ?thesis by simp
  next
    case 3
    then have "(int n + 1) * B \<le> int r * B" using Bpos by (intro mult_right_mono) simp_all
    then have "int n * B + B \<le> int r * B" by (simp add: algebra_simps)
    with 3 assms show ?thesis by auto
  qed
qed

lemma cell_in_buffer:
  assumes "0 \<le> i" "i < B" "r < D"
  shows "0 \<le> int r * B + i" "int r * B + i < int D * B"
proof -
  have Bpos: "0 \<le> B" using assms by linarith
  show "0 \<le> int r * B + i" using assms Bpos by simp
  have "(int r + 1) * B \<le> int D * B" using assms Bpos by (intro mult_right_mono) simp_all
  then show "int r * B + i < int D * B" using assms by (simp add: algebra_simps)
qed

lemma rotate_rows:
  assumes B: "0 \<le> B" and len: "int (length mem) = int D * B"
  shows "n \<le> D \<Longrightarrow>
         length (fold (\<lambda>r m. rotate_row B k (int r) m) [0..<n] mem) = length mem \<and>
         (\<forall>r i. 0 \<le> i \<and> i < B \<and> r < D \<longrightarrow>
           fold (\<lambda>r m. rotate_row B k (int r) m) [0..<n] mem ! nat (int r * B + i) =
             (if r < n
              then (if 0 \<le> i - k \<and> i - k < B then mem ! nat (int r * B + (i - k)) else floor_db)
              else mem ! nat (int r * B + i)))"
proof (induction n)
  case 0
  show ?case by simp
next
  case (Suc n)
  define m where "m = fold (\<lambda>r m. rotate_row B k (int r) m) [0..<n] mem"
  have IHlen: "length m = length mem"
    and IH: "\<And>r i. 0 \<le> i \<Longrightarrow> i < B \<Longrightarrow> r < D \<Longrightarrow>
           m ! nat (int r * B + i) =
             (if r < n
              then (if 0 \<le> i - k \<and> i - k < B then mem ! nat (int r * B + (i - k)) else floor_db)
              else mem ! nat (int r * B + i))"
    using Suc unfolding m_def by simp_all
  have step: "fold (\<lambda>r m. rotate_row B k (int r) m) [0..<Suc n] mem = rotate_row B k (int n) m"
    by (simp add: m_def)
  have nD: "n < D" using Suc.prems by simp
  have base0: "0 \<le> int n * B" using B by simp
  have "(int n + 1) * B \<le> int D * B" using nD B by (intro mult_right_mono) simp_all
  then have fit: "int n * B + B \<le> int (length m)"
    using len IHlen by (simp add: algebra_simps)
  have L: "length (rotate_row B k (int n) m) = length mem"
    using rotate_row_length [OF B base0 fit] IHlen by simp
  have C: "rotate_row B k (int n) m ! nat (int r * B + i) =
             (if r < Suc n
              then (if 0 \<le> i - k \<and> i - k < B then mem ! nat (int r * B + (i - k)) else floor_db)
              else mem ! nat (int r * B + i))"
    if i: "0 \<le> i" "i < B" and r: "r < D" for r i
  proof -
    have pos: "0 \<le> int r * B + i" and lt: "int r * B + i < int D * B"
      using cell_in_buffer [OF i r] by simp_all
    then have j: "nat (int r * B + i) < length m" using len IHlen by linarith
    have eqj: "int (nat (int r * B + i)) = int r * B + i" using pos by simp
    note nth = rotate_row_nth [OF B base0 fit j, of k, unfolded eqj]
    show ?thesis
    proof (cases "r = n")
      case True
      have inrow: "int n * B \<le> int n * B + i \<and> int n * B + i < int n * B + B"
        using i by simp
      show ?thesis
      proof (cases "0 \<le> i - k \<and> i - k < B")
        case T2: True
        then have "m ! nat (int n * B + (i - k)) = mem ! nat (int n * B + (i - k))"
          using IH [of "i - k" n] nD by simp
        then show ?thesis using nth True inrow T2 by (simp add: add_diff_eq)
      next
        case False
        then show ?thesis using nth True inrow by auto
      qed
    next
      case False
      then have "\<not> (int n * B \<le> int r * B + i \<and> int r * B + i < int n * B + B)"
        using row_cell_cases [OF i, of n r] by simp
      then have "rotate_row B k (int n) m ! nat (int r * B + i) = m ! nat (int r * B + i)"
        using nth by auto
      also have "\<dots> = (if r < n
              then (if 0 \<le> i - k \<and> i - k < B then mem ! nat (int r * B + (i - k)) else floor_db)
              else mem ! nat (int r * B + i))"
        using IH [OF i r] .
      finally show ?thesis using False by (simp add: less_Suc_eq)
    qed
  qed
  show ?case unfolding step using L C by blast
qed

lemma sdiv_nonneg: "0 \<le> a \<Longrightarrow> 0 < b \<Longrightarrow> (a::int) sdiv b = a div b"
  by (simp add: signed_divide_int_def sgn_if)

lemma smod_nonneg: "0 \<le> a \<Longrightarrow> 0 < b \<Longrightarrow> (a::int) smod b = a mod b"
  by (simp add: signed_modulo_int_def sgn_if)

lemma store_range_all: "store_range mem 0 (length mem) v = replicate (length mem) v"
  by (rule nth_equalityI) (simp_all add: nth_store_range)

lemma wf_reset_history_Some:
  assumes "history st = Some mem" "length mem = nat (depth st * bins st)"
  shows "wf_reset_history st =
           st\<lparr>history := Some (replicate (nat (depth st * bins st)) floor_db), head := 0\<rparr>"
  using assms store_range_all [of mem floor_db] by (simp add: wf_reset_history_def)

lemma wf_rotate_history_nth:
  assumes hist: "history st = Some mem"
    and len: "int (length mem) = depth st * bins st"
    and B: "0 \<le> bins st" and D: "0 \<le> depth st"
    and r: "0 \<le> r" "r < depth st" and i: "0 \<le> i" "i < bins st"
  shows "\<exists>mem'. history (wf_rotate_history st k) = Some mem' \<and> length mem' = length mem \<and>
           mem' ! nat (r * bins st + i) =
             (if 0 \<le> i - k \<and> i - k < bins st
              then mem ! nat (r * bins st + (i - k)) else floor_db)"
proof -
  define n where "n = nat (depth st)"
  have n: "depth st = int n" using D by (simp add: n_def)
  have len': "int (length mem) = int n * bins st" using len n by simp
  define rn where "rn = nat r"
  have rn: "r = int rn" "rn < n" using r n by (simp_all add: rn_def)
  note R = rotate_rows [OF B len', of n k, simplified]
  from R have "length (fold (\<lambda>r. rotate_row (bins st) k (int r)) [0..<n] mem) = length mem"
    by blast
  moreover from R i rn have "fold (\<lambda>r. rotate_row (bins st) k (int r)) [0..<n] mem
        ! nat (int rn * bins st + i) =
      (if 0 \<le> i - k \<and> i - k < bins st
       then mem ! nat (int rn * bins st + (i - k)) else floor_db)"
    by simp
  ultimately show ?thesis
    using hist unfolding wf_rotate_history_def n [symmetric] n_def [symmetric] rn(1)
    by simp
qed

lemma c_int_0 [simp]: "c_int 0 = 0"
  by (simp add: c_int_def)

lemma rotate_bins_of_same [simp]: "rotate_bins_of rx B (waterfall_frequency rx) = 0"
  by (simp add: rotate_bins_of_def rotate_quotient_def)


section \<open>Properties of pushing a row\<close>

lemma source_sample_Some:
  assumes "pixels rx \<le> int (length (pixel_samples rx))"
  shows "source_sample rx i =
           Some (if i + pan rx < 0 \<or> pixels rx \<le> i + pan rx then floor_db
                 else pixel_samples rx ! nat (i + pan rx))"
  using assms by (auto simp: source_sample_def Let_def read_float_def)

lemma copy_row_fold:
  "(\<And>i. source_sample rx (int i) = Some (f i)) \<Longrightarrow>
     copy_row rx row is mem = Some (fold (\<lambda>i m. m[nat (row + int i) := f i]) is mem)"
  by (induction "is" arbitrary: mem) simp_all

lemma fold_store_length [simp]:
  "length (fold (\<lambda>i m. m[g i := f i]) is mem) = length mem"
  by (induction "is" arbitrary: mem) simp_all

lemma fold_store_nth:
  assumes "base + n \<le> length mem" "j < length mem"
  shows "fold (\<lambda>i m. m[base + i := f i]) [0..<n] mem ! j =
           (if base \<le> j \<and> j < base + n then f (j - base) else mem ! j)"
  using assms
proof (induction n)
  case 0
  then show ?case by auto
next
  case (Suc n)
  then have IH: "fold (\<lambda>i m. m[base + i := f i]) [0..<n] mem ! j =
           (if base \<le> j \<and> j < base + n then f (j - base) else mem ! j)"
    by simp
  show ?case
  proof (cases "j = base + n")
    case True
    with Suc.prems show ?thesis by simp
  next
    case False
    with IH show ?thesis by (auto simp: nth_list_update)
  qed
qed

lemma delivered_row_length [simp]: "length (delivered_row rx B) = nat B"
  by (simp add: delivered_row_def)

lemma delivered_row_nth:
  "i < nat B \<Longrightarrow> delivered_row rx B ! i =
     (if int i + pan rx < 0 \<or> pixels rx \<le> int i + pan rx then floor_db
      else pixel_samples rx ! nat (int i + pan rx))"
  by (simp add: delivered_row_def)

lemma wf_store_row_Some:
  assumes hist: "history st = Some mem"
    and src: "pixels rx \<le> int (length (pixel_samples rx))"
    and B: "0 \<le> bins st" and row: "0 \<le> head st * bins st"
    and fit: "head st * bins st + bins st \<le> int (length mem)"
  shows "\<exists>mem'. wf_store_row st rx =
             Some (st\<lparr>history := Some mem', head := (head st + 1) smod depth st\<rparr>)
           \<and> length mem' = length mem
           \<and> (\<forall>j < length mem. mem' ! j =
                 (if head st * bins st \<le> int j \<and> int j < head st * bins st + bins st
                  then delivered_row rx (bins st) ! nat (int j - head st * bins st)
                  else mem ! j))"
proof -
  define f where "f i = (if int i + pan rx < 0 \<or> pixels rx \<le> int i + pan rx then floor_db
                 else pixel_samples rx ! nat (int i + pan rx))" for i
  define base where "base = nat (head st * bins st)"
  define n where "n = nat (bins st)"
  have src': "\<And>i. source_sample rx (int i) = Some (f i)"
    using source_sample_Some [OF src] by (simp add: f_def)
  have idx: "nat (head st * bins st + int i) = base + i" for i
    using row by (simp add: base_def nat_add_distrib)
  define mem' where "mem' = fold (\<lambda>i m. m[base + i := f i]) [0..<n] mem"
  have copy: "copy_row rx (head st * bins st) [0..<n] mem = Some mem'"
    using copy_row_fold [of rx f, OF src'] by (simp add: idx mem'_def)
  have hb: "head st * bins st = int base" using row by (simp add: base_def)
  have bn: "bins st = int n" using B by (simp add: n_def)
  have fit': "base + n \<le> length mem" using fit hb bn by linarith
  have cells: "mem' ! j =
                 (if head st * bins st \<le> int j \<and> int j < head st * bins st + bins st
                  then delivered_row rx (bins st) ! nat (int j - head st * bins st)
                  else mem ! j)" if j: "j < length mem" for j
  proof (cases "base \<le> j \<and> j < base + n")
    case True
    then have lt: "j - base < nat (bins st)" unfolding n_def by linarith
    have e: "nat (int j - head st * bins st) = j - base" using hb by linarith
    have c: "head st * bins st \<le> int j \<and> int j < head st * bins st + bins st"
      using True hb bn by linarith
    show ?thesis
      unfolding mem'_def fold_store_nth [OF fit' j] using True c e lt
      by (simp add: delivered_row_nth f_def)
  next
    case False
    then have c: "\<not> (head st * bins st \<le> int j \<and> int j < head st * bins st + bins st)"
      using hb bn by linarith
    show ?thesis
      unfolding mem'_def fold_store_nth [OF fit' j] using False c by auto
  qed
  show ?thesis
    using hist copy cells by (auto simp: wf_store_row_def n_def mem'_def)
qed

lemma push_rows_snoc:
  "push_rows st (xs @ [x]) =
     (case push_rows st xs of None \<Rightarrow> None | Some st' \<Rightarrow> wf_store_row st' x)"
  by (induction xs arbitrary: st) (auto split: option.splits)

lemma push_rows_fill:
  assumes D: "0 < D" and B: "0 \<le> B"
    and st: "history st = Some mem0" "length mem0 = nat (D * B)" "head st = 0"
            "depth st = D" "bins st = B"
    and floor0: "\<And>j. j < length mem0 \<Longrightarrow> mem0 ! j = floor_db"
  shows "int (length rxs) < D \<Longrightarrow>
         (\<forall>rx \<in> set rxs. pixels rx \<le> int (length (pixel_samples rx))) \<Longrightarrow>
         \<exists>st' m. push_rows st rxs = Some st' \<and> head st' = int (length rxs)
           \<and> depth st' = D \<and> bins st' = B \<and> history st' = Some m
           \<and> length m = nat (D * B)
           \<and> (\<forall>r i. r < nat D \<and> 0 \<le> i \<and> i < B \<longrightarrow>
                 m ! nat (int r * B + i) =
                   (if r < length rxs then delivered_row (rxs ! r) B ! nat i else floor_db))"
proof (induction rxs rule: rev_induct)
  case Nil
  have "\<forall>r i. r < nat D \<and> 0 \<le> i \<and> i < B \<longrightarrow> mem0 ! nat (int r * B + i) = floor_db"
  proof (intro allI impI)
    fix r i assume a: "r < nat D \<and> 0 \<le> i \<and> i < B"
    then have "int r * B + i < int (nat D) * B" and "0 \<le> int r * B + i"
      using cell_in_buffer [of i B r "nat D"] by simp_all
    then have "nat (int r * B + i) < length mem0" using st(2) D B
      by (simp add: nat_less_iff nat_mult_distrib)
    then show "mem0 ! nat (int r * B + i) = floor_db" by (rule floor0)
  qed
  then show ?case using st by simp
next
  case (snoc x xs)
  define n where "n = length xs"
  have nD: "int n + 1 < D" using snoc.prems(1) by (simp add: n_def)
  from snoc obtain st' m where
    run: "push_rows st xs = Some st'" and hd: "head st' = int n"
    and dp: "depth st' = D" and bn: "bins st' = B" and hist: "history st' = Some m"
    and len: "length m = nat (D * B)"
    and cells: "\<And>r i. r < nat D \<Longrightarrow> 0 \<le> i \<Longrightarrow> i < B \<Longrightarrow>
                 m ! nat (int r * B + i) =
                   (if r < n then delivered_row (xs ! r) B ! nat i else floor_db)"
    unfolding n_def by auto
  have src: "pixels x \<le> int (length (pixel_samples x))" using snoc.prems(2) by simp
  have row: "0 \<le> head st' * bins st'" using hd bn B by simp
  have lenD: "int (length m) = D * B" using len D B by simp
  have "(int n + 1) * B \<le> D * B" using nD B by (intro mult_right_mono) simp_all
  then have fit: "head st' * bins st' + bins st' \<le> int (length m)"
    using hd bn lenD by (simp add: algebra_simps)
  from wf_store_row_Some [OF hist src _ row fit] bn B obtain m' where
    push: "wf_store_row st' x = Some (st'\<lparr>history := Some m', head := (head st' + 1) smod depth st'\<rparr>)"
    and len': "length m' = length m"
    and new: "\<And>j. j < length m \<Longrightarrow> m' ! j =
                 (if head st' * bins st' \<le> int j \<and> int j < head st' * bins st' + bins st'
                  then delivered_row x (bins st') ! nat (int j - head st' * bins st')
                  else m ! j)"
    by auto
  have hd': "(head st' + 1) smod depth st' = int (length (xs @ [x]))"
    using hd dp nD by (simp add: smod_nonneg n_def)
  have C: "m' ! nat (int r * B + i) =
             (if r < length (xs @ [x]) then delivered_row ((xs @ [x]) ! r) B ! nat i else floor_db)"
    if r: "r < nat D" and i: "0 \<le> i" "i < B" for r i
  proof -
    have pos: "0 \<le> int r * B + i" and lt: "int r * B + i < int (nat D) * B"
      using cell_in_buffer [OF i r] by simp_all
    then have j: "nat (int r * B + i) < length m" using lenD D by simp
    have eqj: "int (nat (int r * B + i)) = int r * B + i" using pos by simp
    note nw = new [OF j, unfolded eqj hd bn]
    show ?thesis
    proof (cases "r = n")
      case True
      then show ?thesis using nw i by (simp add: n_def)
    next
      case False
      then have "\<not> (int n * B \<le> int r * B + i \<and> int r * B + i < int n * B + B)"
        using row_cell_cases [OF i, of n r] by simp
      then have "m' ! nat (int r * B + i) = m ! nat (int r * B + i)" using nw by auto
      then show ?thesis using cells [OF r i] False by (auto simp: n_def nth_append)
    qed
  qed
  show ?case
    unfolding push_rows_snoc run using push hd' dp bn len len' C by auto
qed

lemma history_row_eqI:
  assumes "length row = nat B"
    and "\<And>i. 0 \<le> i \<Longrightarrow> i < B \<Longrightarrow> mem ! nat (r * B + i) = row ! nat i"
  shows "history_row mem B r = row"
proof (rule nth_equalityI)
  show "length (history_row mem B r) = length row" using assms(1) by (simp add: history_row_def)
next
  fix i assume "i < length (history_row mem B r)"
  then have i: "i < nat B" by (simp add: history_row_def)
  then have "mem ! nat (r * B + int i) = row ! nat (int i)" by (intro assms(2)) simp_all
  then show "history_row mem B r ! i = row ! i" using i by (simp add: history_row_def)
qed


section \<open>The ring buffer\<close>

text \<open>
  C1. Take a buffer of \<open>depth\<close> rows of \<open>bins\<close> cells that has just been reset, and let
  \<open>n < depth\<close> ticks each store their row (\<open>wf_store_row\<close>, which writes at row \<open>head\<close>
  and then advances \<open>head\<close> modulo \<open>depth\<close>). No tick reads outside its sample array,
  \<open>head\<close> ends at \<open>n\<close>, the row of age \<open>d < n\<close> (physical row
  \<open>(head - d - 1 + depth) % depth\<close>) is the row delivered by tick \<open>n - 1 - d\<close>, and the row
  of every age \<open>n \<le> d < depth\<close> is filled with \<open>-140\<close>.
\<close>

theorem ring_buffer_push_age:
  assumes alloc: "history st0 = Some mem0" "int (length mem0) = depth st0 * bins st0"
    and D: "0 < depth st0" and B: "0 \<le> bins st0"
    and n: "int (length rxs) < depth st0"
    and src: "\<forall>rx \<in> set rxs. pixels rx \<le> int (length (pixel_samples rx))"
  shows "\<exists>st'. push_rows (wf_reset_history st0) rxs = Some st'
           \<and> head st' = int (length rxs)
           \<and> (\<forall>d. 0 \<le> d \<and> d < int (length rxs) \<longrightarrow>
                 row_at_age st' d =
                   delivered_row (rxs ! nat (int (length rxs) - 1 - d)) (bins st0))
           \<and> (\<forall>d. int (length rxs) \<le> d \<and> d < depth st0 \<longrightarrow>
                 row_at_age st' d = replicate (nat (bins st0)) floor_db)"
proof -
  define DD where "DD = depth st0"
  define BB where "BB = bins st0"
  define N where "N = int (length rxs)"
  have len0: "length mem0 = nat (DD * BB)" using alloc(2) by (simp add: DD_def BB_def)
  have reset: "wf_reset_history st0 =
      st0\<lparr>history := Some (replicate (nat (DD * BB)) floor_db), head := 0\<rparr>"
    using wf_reset_history_Some [OF alloc(1)] len0 by (simp add: DD_def BB_def)
  have "\<exists>st' m. push_rows (wf_reset_history st0) rxs = Some st' \<and> head st' = int (length rxs)
           \<and> depth st' = DD \<and> bins st' = BB \<and> history st' = Some m
           \<and> length m = nat (DD * BB)
           \<and> (\<forall>r i. r < nat DD \<and> 0 \<le> i \<and> i < BB \<longrightarrow>
                 m ! nat (int r * BB + i) =
                   (if r < length rxs then delivered_row (rxs ! r) BB ! nat i else floor_db))"
    using D B n src unfolding reset
    by (intro push_rows_fill [where ?mem0.0 = "replicate (nat (DD * BB)) floor_db"])
       (simp_all add: DD_def BB_def)
  then obtain st' m where
    run: "push_rows (wf_reset_history st0) rxs = Some st'" and hd: "head st' = N"
    and dp: "depth st' = DD" and bn: "bins st' = BB" and hist: "history st' = Some m"
    and cells: "\<And>r i. r < nat DD \<Longrightarrow> 0 \<le> i \<Longrightarrow> i < BB \<Longrightarrow>
                 m ! nat (int r * BB + i) =
                   (if r < length rxs then delivered_row (rxs ! r) BB ! nat i else floor_db)"
    unfolding N_def by blast
  have Dpos: "0 < DD" and NltD: "N < DD" and N0: "0 \<le> N"
    using D n by (simp_all add: DD_def N_def)
  have young: "row_at_age st' d = delivered_row (rxs ! nat (N - 1 - d)) BB"
    if d: "0 \<le> d" "d < N" for d
  proof -
    have "0 \<le> N - d - 1 + DD" using d Dpos by linarith
    then have "(N - d - 1 + DD) smod DD = (N - d - 1 + DD) mod DD"
      using Dpos by (simp add: smod_nonneg)
    also have "\<dots> = N - d - 1" using d NltD by simp
    finally have ri: "row_index st' d = int (nat (N - 1 - d))"
      using d by (simp add: row_index_def hd dp)
    have r: "nat (N - 1 - d) < nat DD" "nat (N - 1 - d) < length rxs"
      using d NltD by (simp_all add: N_def)
    show ?thesis
      unfolding row_at_age_def hist option.case bn ri
    proof (rule history_row_eqI)
      show "length (delivered_row (rxs ! nat (N - 1 - d)) BB) = nat BB" by simp
    next
      fix i assume "0 \<le> i" "i < BB"
      from cells [OF r(1) this] r(2)
      show "m ! nat (int (nat (N - 1 - d)) * BB + i) =
              delivered_row (rxs ! nat (N - 1 - d)) BB ! nat i"
        by (simp only: if_True)
    qed
  qed
  have old: "row_at_age st' d = replicate (nat BB) floor_db"
    if d: "N \<le> d" "d < DD" for d
  proof -
    have "0 \<le> N - d - 1 + DD" using d N0 by linarith
    then have "(N - d - 1 + DD) smod DD = (N - d - 1 + DD) mod DD"
      using Dpos by (simp add: smod_nonneg)
    also have "\<dots> = N - d - 1 + DD" using d N0 by (intro mod_pos_pos_trivial) linarith+
    finally have ri: "row_index st' d = int (nat (N - d - 1 + DD))"
      using d N0 by (simp add: row_index_def hd dp)
    have r: "nat (N - d - 1 + DD) < nat DD" "\<not> nat (N - d - 1 + DD) < length rxs"
      using d N0 by (simp_all add: N_def)
    show ?thesis
      unfolding row_at_age_def hist option.case bn ri
    proof (rule history_row_eqI)
      show "length (replicate (nat BB) floor_db) = nat BB" by simp
    next
      fix i assume i: "0 \<le> i" "i < BB"
      from cells [OF r(1) i] r(2)
      have "m ! nat (int (nat (N - d - 1 + DD)) * BB + i) = floor_db"
        by (simp only: if_False)
      then show "m ! nat (int (nat (N - d - 1 + DD)) * BB + i) =
              replicate (nat BB) floor_db ! nat i"
        using i by simp
    qed
  qed
  show ?thesis
    using run hd young old unfolding N_def DD_def BB_def by auto
qed

theorem ring_buffer_push_age_witness:
  "\<exists>st'. push_rows (wf_reset_history (example_state 4 4 2 (replicate 16 0)))
            [example_receiver [1, 2, 3, 4] 7100000,
             example_receiver [5, 6, 7, 8] 7100000,
             example_receiver [9, 10, 11, 12] 7100000] = Some st'
     \<and> head st' = 3
     \<and> row_at_age st' 0 = [9, 10, 11, 12]
     \<and> row_at_age st' 1 = [5, 6, 7, 8]
     \<and> row_at_age st' 2 = [1, 2, 3, 4]
     \<and> row_at_age st' 3 = [floor_db, floor_db, floor_db, floor_db]"
proof -
  let ?st0 = "example_state 4 4 2 (replicate 16 0)"
  let ?rxs = "[example_receiver [1, 2, 3, 4] 7100000,
             example_receiver [5, 6, 7, 8] 7100000,
             example_receiver [9, 10, 11, 12] 7100000]"
  have h1: "history ?st0 = Some (replicate 16 0)"
    and h2: "int (length (replicate 16 (0::rat))) = depth ?st0 * bins ?st0"
    and h3: "0 < depth ?st0" and h4: "0 \<le> bins ?st0"
    and h5: "int (length ?rxs) < depth ?st0"
    and h6: "\<forall>rx \<in> set ?rxs. pixels rx \<le> int (length (pixel_samples rx))"
    by (simp_all add: example_state_def example_receiver_def)
  from ring_buffer_push_age [OF h1 h2 h3 h4 h5 h6] obtain st' where
    run: "push_rows (wf_reset_history ?st0) ?rxs = Some st'" and hd: "head st' = 3"
    and young: "\<And>d. 0 \<le> d \<Longrightarrow> d < 3 \<Longrightarrow>
         row_at_age st' d = delivered_row (?rxs ! nat (3 - 1 - d)) (bins ?st0)"
    and old: "\<And>d. 3 \<le> d \<Longrightarrow> d < depth ?st0 \<Longrightarrow>
         row_at_age st' d = replicate (nat (bins ?st0)) floor_db"
    by auto
  have rows: "delivered_row (example_receiver [9, 10, 11, 12] 7100000) 4 = [9, 10, 11, 12]"
    "delivered_row (example_receiver [5, 6, 7, 8] 7100000) 4 = [5, 6, 7, 8]"
    "delivered_row (example_receiver [1, 2, 3, 4] 7100000) 4 = [1, 2, 3, 4]"
    by code_simp+
  have "row_at_age st' 0 = [9, 10, 11, 12]"
    using young [of 0] rows by (simp add: example_state_def)
  moreover have "row_at_age st' 1 = [5, 6, 7, 8]"
    using young [of 1] rows by (simp add: example_state_def)
  moreover have "row_at_age st' 2 = [1, 2, 3, 4]"
    using young [of 2] rows by (simp add: example_state_def)
  moreover have "row_at_age st' 3 = [floor_db, floor_db, floor_db, floor_db]"
    using old [of 3] by (simp add: example_state_def eval_nat_numeral)
  ultimately show ?thesis using run hd by blast
qed

section \<open>Rotation of the history\<close>

text \<open>
  C2. When the tracker is initialised, the sample rate is the one last seen and the
  VFO has moved by at most half the sample rate, the frequency block shifts every row by
  \<open>k = rotate_bins\<close> cells: cell \<open>i\<close> of row \<open>r\<close> afterwards holds what cell \<open>i - k\<close> of that
  row held before, and \<open>-140\<close> when \<open>i - k\<close> falls outside the row. So for \<open>k > 0\<close> the \<open>k\<close>
  leftmost cells, and for \<open>k < 0\<close> the \<open>-k\<close> rightmost cells, hold \<open>-140\<close>. The buffer keeps
  its size and \<open>head\<close> stays.
\<close>

theorem rotation_shifts_every_row:
  assumes hist: "history st = Some mem"
    and len: "int (length mem) = depth st * bins st"
    and B: "0 < bins st" and D: "0 \<le> depth st"
    and init: "waterfall_frequency rx \<noteq> 0" "sample_rate rx = waterfall_sample_rate rx"
    and near: "2 * \<bar>current_freq - waterfall_frequency rx\<bar> \<le> sample_rate rx"
    and r: "0 \<le> r" "r < depth st" and i: "0 \<le> i" "i < bins st"
    and k: "k = rotate_bins_of rx (bins st) current_freq"
  shows "\<exists>mem'. history (fst (wf_track_frequency st rx current_freq)) = Some mem'
           \<and> length mem' = length mem
           \<and> head (fst (wf_track_frequency st rx current_freq)) = head st
           \<and> mem' ! nat (r * bins st + i) =
               (if 0 \<le> i - k \<and> i - k < bins st
                then mem ! nat (r * bins st + (i - k)) else floor_db)"
proof -
  have sr: "0 \<le> sample_rate rx" using near by arith
  then have half: "sample_rate rx sdiv 2 = sample_rate rx div 2" by (simp add: sdiv_nonneg)
  have inside: "\<not> (waterfall_frequency rx < current_freq - sample_rate rx sdiv 2
                  \<or> waterfall_frequency rx > current_freq + sample_rate rx sdiv 2)"
    unfolding half using near by arith
  show ?thesis
  proof (cases "waterfall_frequency rx = current_freq \<or> k = 0")
    case True
    then have k0: "k = 0" using k by auto
    have "fst (wf_track_frequency st rx current_freq) = st"
      using True B init inside k by (auto simp: wf_track_frequency_def Let_def)
    then show ?thesis using hist k0 i by simp
  next
    case False
    then have "fst (wf_track_frequency st rx current_freq) = wf_rotate_history st k"
      using B init inside k by (auto simp: wf_track_frequency_def Let_def)
    moreover have "head (wf_rotate_history st k) = head st"
      using hist by (simp add: wf_rotate_history_def)
    ultimately show ?thesis
      using wf_rotate_history_nth [OF hist len _ D r i, of k] B by auto
  qed
qed


theorem rotation_shifts_every_row_witness:
  "\<exists>mem'. history (fst (wf_track_frequency (example_state 2 4 1 [1, 2, 3, 4, 5, 6, 7, 8])
                          (example_receiver [0, 0, 0, 0] 7112000) 7100000)) = Some mem'
     \<and> length mem' = 8
     \<and> head (fst (wf_track_frequency (example_state 2 4 1 [1, 2, 3, 4, 5, 6, 7, 8])
                          (example_receiver [0, 0, 0, 0] 7112000) 7100000)) = 1
     \<and> mem' ! 6 = 6"
proof -
  let ?st = "example_state 2 4 1 [1, 2, 3, 4, 5, 6, 7, 8]"
  let ?rx = "example_receiver [0, 0, 0, 0] 7112000"
  have k: "(1::int) = rotate_bins_of ?rx (bins ?st) 7100000"
    by code_simp
  have "\<exists>mem'. history (fst (wf_track_frequency ?st ?rx 7100000)) = Some mem'
           \<and> length mem' = length [1, 2, 3, 4, 5, 6, 7, 8 :: rat]
           \<and> head (fst (wf_track_frequency ?st ?rx 7100000)) = head ?st
           \<and> mem' ! nat (1 * bins ?st + 2) =
               (if 0 \<le> (2::int) - 1 \<and> 2 - 1 < bins ?st
                then [1, 2, 3, 4, 5, 6, 7, 8] ! nat (1 * bins ?st + (2 - 1)) else floor_db)"
    by (rule rotation_shifts_every_row [where k = 1, OF _ _ _ _ _ _ _ _ _ _ _ k])
       (simp_all add: example_receiver_def example_state_def)
  then show ?thesis by (simp add: example_state_def eval_nat_numeral)
qed

section \<open>The stages of a tick\<close>

lemma update_count_reset [simp]: "update_count (wf_reset_history st) = update_count st"
  by (simp add: wf_reset_history_def split: option.splits)

lemma update_count_rotate [simp]: "update_count (wf_rotate_history st k) = update_count st"
  by (simp add: wf_rotate_history_def split: option.splits)

lemma update_count_sync [simp]: "update_count (wf_sync_geometry st rx w) = update_count st"
  by (simp add: wf_sync_geometry_def Let_def)

lemma update_count_track [simp]:
  "update_count (fst (wf_track_frequency st rx f)) = update_count st"
  by (simp add: wf_track_frequency_def Let_def)

lemma early_tick:
  assumes "history st \<noteq> None" "update_count st < 4" "2 < w"
  shows "waterfall3dss_update st rx f (Some w) =
           Some ((fst (wf_track_frequency (wf_sync_geometry st rx w) rx f))
                    \<lparr>update_count := update_count st + 1\<rparr>,
                 snd (wf_track_frequency (wf_sync_geometry st rx w) rx f), True)"
  using assms by (simp add: waterfall3dss_update_def Let_def split_beta)

lemma accepted_tick:
  assumes "history st \<noteq> None" "4 \<le> update_count st" "2 < w"
  shows "waterfall3dss_update st rx f (Some w) =
           (case wf_store_row
                   ((fst (wf_track_frequency (wf_sync_geometry st rx w) rx f))
                      \<lparr>update_count := update_count st + 1\<rparr>)
                   (snd (wf_track_frequency (wf_sync_geometry st rx w) rx f)) of
              None \<Rightarrow> None
            | Some st' \<Rightarrow>
                Some (st', snd (wf_track_frequency (wf_sync_geometry st rx w) rx f), True))"
  using assms by (auto simp add: waterfall3dss_update_def Let_def split_beta split: option.splits)

lemma steady_tick_stages:
  assumes "waterfall_zoom st = zoom rx" "bins st = w" "history st \<noteq> None"
    "waterfall_frequency rx = f" "f \<noteq> 0" "sample_rate rx = waterfall_sample_rate rx" "0 < w"
  shows "head (fst (wf_track_frequency (wf_sync_geometry st rx w) rx f)) = head st"
    and "history (fst (wf_track_frequency (wf_sync_geometry st rx w) rx f)) = history st"
  using assms by (auto simp add: wf_sync_geometry_def wf_track_frequency_def Let_def)

lemma update_unfold:
  assumes w: "w = (case widget of None \<Rightarrow> 800 | Some x \<Rightarrow> if x \<le> 0 then 800 else x)"
  shows "waterfall3dss_update st rx f widget =
     (if history st = None \<or> w \<le> 2 then Some (st, rx, False)
      else if update_count st + 1 < 5
      then Some ((fst (wf_track_frequency (wf_sync_geometry st rx w) rx f))
                    \<lparr>update_count := update_count st + 1\<rparr>,
                 snd (wf_track_frequency (wf_sync_geometry st rx w) rx f), widget \<noteq> None)
      else (case wf_store_row
                   ((fst (wf_track_frequency (wf_sync_geometry st rx w) rx f))
                      \<lparr>update_count := update_count st + 1\<rparr>)
                   (snd (wf_track_frequency (wf_sync_geometry st rx w) rx f)) of
              None \<Rightarrow> None
            | Some st' \<Rightarrow>
                Some (st', snd (wf_track_frequency (wf_sync_geometry st rx w) rx f),
                      widget \<noteq> None)))"
  unfolding w
  by (cases widget)
     (auto simp add: waterfall3dss_update_def Let_def split_beta split: option.splits)

lemma sync_steady:
  assumes "waterfall_zoom st = zoom rx" "bins st = w" "history st \<noteq> None"
  shows "wf_sync_geometry st rx w = st\<lparr>waterfall_pan := pan rx\<rparr>"
  using assms by (auto simp add: wf_sync_geometry_def Let_def)

lemma track_large_jump:
  assumes hist: "history st = Some mem"
    and len: "int (length mem) = depth st * bins st"
    and B: "0 < bins st"
    and init: "waterfall_frequency rx \<noteq> 0" "sample_rate rx = waterfall_sample_rate rx"
    and sr: "0 \<le> sample_rate rx"
    and far: "sample_rate rx < 2 * \<bar>current_freq - waterfall_frequency rx\<bar>"
  shows "wf_track_frequency st rx current_freq =
           (st\<lparr>history := Some (replicate (length mem) floor_db), head := 0\<rparr>,
            rx\<lparr>waterfall_frequency := current_freq, waterfall_sample_rate := sample_rate rx\<rparr>)"
proof -
  have half: "sample_rate rx sdiv 2 = sample_rate rx div 2" using sr by (simp add: sdiv_nonneg)
  have changed: "waterfall_frequency rx \<noteq> current_freq" using far sr by auto
  have outside: "waterfall_frequency rx < current_freq - sample_rate rx sdiv 2
                  \<or> waterfall_frequency rx > current_freq + sample_rate rx sdiv 2"
    unfolding half using far sr by arith
  have "length mem = nat (depth st * bins st)" using len by linarith
  then have reset: "wf_reset_history st =
      st\<lparr>history := Some (replicate (length mem) floor_db), head := 0\<rparr>"
    using wf_reset_history_Some [OF hist] by simp
  show ?thesis
    using B init changed outside reset by (simp add: wf_track_frequency_def Let_def)
qed

text \<open>
  C4. When the tracker is initialised, the sample rate is the one last seen and the VFO
  has moved by more than half the sample rate, the frequency block resets the buffer:
  every cell is \<open>-140\<close>, \<open>head\<close> is \<open>0\<close>, and no row is rotated. The receiver records the
  new frequency. On a tick with the zoom and the width unchanged, that reset is all
  that happens to the buffer before the counter is checked: a dropped tick leaves the
  reset buffer, and a stored tick writes its row into it.
\<close>

theorem large_jump_resets:
  assumes hist: "history st = Some mem"
    and len: "int (length mem) = depth st * bins st"
    and B: "0 < bins st"
    and init: "waterfall_frequency rx \<noteq> 0" "sample_rate rx = waterfall_sample_rate rx"
    and sr: "0 \<le> sample_rate rx"
    and far: "sample_rate rx < 2 * \<bar>current_freq - waterfall_frequency rx\<bar>"
  shows "wf_track_frequency st rx current_freq =
           (st\<lparr>history := Some (replicate (length mem) floor_db), head := 0\<rparr>,
            rx\<lparr>waterfall_frequency := current_freq, waterfall_sample_rate := sample_rate rx\<rparr>)
       \<and> (waterfall_zoom st = zoom rx \<and> 2 < bins st \<longrightarrow>
            waterfall3dss_update st rx current_freq (Some (bins st)) =
              (if update_count st + 1 < 5
               then Some (st\<lparr>waterfall_pan := pan rx,
                              history := Some (replicate (length mem) floor_db), head := 0,
                              update_count := update_count st + 1\<rparr>,
                          rx\<lparr>waterfall_frequency := current_freq,
                             waterfall_sample_rate := sample_rate rx\<rparr>, True)
               else (case wf_store_row
                            (st\<lparr>waterfall_pan := pan rx,
                                history := Some (replicate (length mem) floor_db), head := 0,
                                update_count := update_count st + 1\<rparr>)
                            (rx\<lparr>waterfall_frequency := current_freq,
                                waterfall_sample_rate := sample_rate rx\<rparr>) of
                       None \<Rightarrow> None
                     | Some st' \<Rightarrow>
                         Some (st', rx\<lparr>waterfall_frequency := current_freq,
                                       waterfall_sample_rate := sample_rate rx\<rparr>, True))))"
proof (intro conjI impI)
  show "wf_track_frequency st rx current_freq =
           (st\<lparr>history := Some (replicate (length mem) floor_db), head := 0\<rparr>,
            rx\<lparr>waterfall_frequency := current_freq, waterfall_sample_rate := sample_rate rx\<rparr>)"
    by (rule track_large_jump [OF assms])
next
  assume steady: "waterfall_zoom st = zoom rx \<and> 2 < bins st"
  define s where "s = st\<lparr>waterfall_pan := pan rx\<rparr>"
  have sync: "wf_sync_geometry st rx (bins st) = s"
    using steady hist by (simp add: sync_steady s_def)
  have "wf_track_frequency s rx current_freq =
           (s\<lparr>history := Some (replicate (length mem) floor_db), head := 0\<rparr>,
            rx\<lparr>waterfall_frequency := current_freq, waterfall_sample_rate := sample_rate rx\<rparr>)"
    using assms by (intro track_large_jump) (simp_all add: s_def)
  then have track: "wf_track_frequency (wf_sync_geometry st rx (bins st)) rx current_freq =
           (st\<lparr>waterfall_pan := pan rx,
               history := Some (replicate (length mem) floor_db), head := 0\<rparr>,
            rx\<lparr>waterfall_frequency := current_freq, waterfall_sample_rate := sample_rate rx\<rparr>)"
    unfolding sync by (simp add: s_def)
  have w: "bins st = (case Some (bins st) of None \<Rightarrow> 800 | Some x \<Rightarrow> if x \<le> 0 then 800 else x)"
    using B by simp
  show "waterfall3dss_update st rx current_freq (Some (bins st)) =
              (if update_count st + 1 < 5
               then Some (st\<lparr>waterfall_pan := pan rx,
                              history := Some (replicate (length mem) floor_db), head := 0,
                              update_count := update_count st + 1\<rparr>,
                          rx\<lparr>waterfall_frequency := current_freq,
                             waterfall_sample_rate := sample_rate rx\<rparr>, True)
               else (case wf_store_row
                            (st\<lparr>waterfall_pan := pan rx,
                                history := Some (replicate (length mem) floor_db), head := 0,
                                update_count := update_count st + 1\<rparr>)
                            (rx\<lparr>waterfall_frequency := current_freq,
                                waterfall_sample_rate := sample_rate rx\<rparr>) of
                       None \<Rightarrow> None
                     | Some st' \<Rightarrow>
                         Some (st', rx\<lparr>waterfall_frequency := current_freq,
                                       waterfall_sample_rate := sample_rate rx\<rparr>, True)))"
    unfolding update_unfold [OF w] track using steady hist
    by (auto split: option.splits)
qed

theorem large_jump_resets_witness:
  "wf_track_frequency (example_state 2 4 1 [1, 2, 3, 4, 5, 6, 7, 8])
      (example_receiver [10, 20, 30, 40] 7100000) 14200000 =
     ((example_state 2 4 1 [1, 2, 3, 4, 5, 6, 7, 8])
        \<lparr>history := Some (replicate 8 floor_db), head := 0\<rparr>,
      (example_receiver [10, 20, 30, 40] 7100000)
        \<lparr>waterfall_frequency := 14200000, waterfall_sample_rate := 48000\<rparr>)
   \<and> waterfall3dss_update (example_state 2 4 1 [1, 2, 3, 4, 5, 6, 7, 8])
      (example_receiver [10, 20, 30, 40] 7100000) 14200000 (Some 4) =
     Some ((example_state 2 4 1 [1, 2, 3, 4, 5, 6, 7, 8])
             \<lparr>history := Some [10, 20, 30, 40, floor_db, floor_db, floor_db, floor_db],
              head := 1, update_count := 6\<rparr>,
           (example_receiver [10, 20, 30, 40] 7100000)
             \<lparr>waterfall_frequency := 14200000, waterfall_sample_rate := 48000\<rparr>, True)"
proof -
  let ?st = "example_state 2 4 1 [1, 2, 3, 4, 5, 6, 7, 8]"
  let ?rx = "example_receiver [10, 20, 30, 40] 7100000"
  let ?rx' = "?rx\<lparr>waterfall_frequency := 14200000, waterfall_sample_rate := 48000\<rparr>"
  have h: "history ?st = Some [1, 2, 3, 4, 5, 6, 7, 8]"
    "int (length [1, 2, 3, 4, 5, 6, 7, 8 :: rat]) = depth ?st * bins ?st"
    "0 < bins ?st" "waterfall_frequency ?rx \<noteq> 0"
    "sample_rate ?rx = waterfall_sample_rate ?rx" "0 \<le> sample_rate ?rx"
    "sample_rate ?rx < 2 * \<bar>14200000 - waterfall_frequency ?rx\<bar>"
    by (simp_all add: example_receiver_def example_state_def)
  have steady: "waterfall_zoom ?st = zoom ?rx \<and> 2 < bins ?st"
    by (simp add: example_receiver_def example_state_def)
  have store: "wf_store_row
      (?st\<lparr>waterfall_pan := 0, history := Some (replicate 8 floor_db), head := 0,
           update_count := 6\<rparr>) ?rx'
      = Some (?st\<lparr>history := Some [10, 20, 30, 40, floor_db, floor_db, floor_db, floor_db],
                  head := 1, update_count := 6\<rparr>)"
    by code_simp
  note t = large_jump_resets [OF h]
  from t have a: "wf_track_frequency ?st ?rx 14200000 =
     (?st\<lparr>history := Some (replicate 8 floor_db), head := 0\<rparr>, ?rx')"
    by (simp add: example_receiver_def eval_nat_numeral)
  from t steady have "waterfall3dss_update ?st ?rx 14200000 (Some (bins ?st)) =
     (case wf_store_row
        (?st\<lparr>waterfall_pan := pan ?rx,
             history := Some (replicate (length [1, 2, 3, 4, 5, 6, 7, 8 :: rat]) floor_db),
             head := 0, update_count := update_count ?st + 1\<rparr>)
        (?rx\<lparr>waterfall_frequency := 14200000, waterfall_sample_rate := sample_rate ?rx\<rparr>) of
        None \<Rightarrow> None
      | Some st' \<Rightarrow>
          Some (st', ?rx\<lparr>waterfall_frequency := 14200000,
                         waterfall_sample_rate := sample_rate ?rx\<rparr>, True))"
    by (simp add: example_state_def)
  moreover have "bins ?st = 4" "pan ?rx = 0" "sample_rate ?rx = 48000" "update_count ?st + 1 = 6"
    "replicate (length [1, 2, 3, 4, 5, 6, 7, 8 :: rat]) floor_db = replicate 8 floor_db"
    by (simp_all add: example_receiver_def example_state_def eval_nat_numeral)
  ultimately have b: "waterfall3dss_update ?st ?rx 14200000 (Some 4) =
     Some (?st\<lparr>history := Some [10, 20, 30, 40, floor_db, floor_db, floor_db, floor_db],
                head := 1, update_count := 6\<rparr>, ?rx', True)"
    using store by (simp only: option.case)
  from a b show ?thesis by (rule conjI)
qed

section \<open>Pan offsets outside the sample array\<close>

text \<open>
  C9. On a tick that stores its row, with a sample array of at least \<open>rx->pixels\<close> cells:
  the copy loop never reads outside the array (the run is \<open>Some\<close>), and the cell of
  destination bin \<open>i\<close> in row \<open>head\<close> ends up \<open>-140\<close> when \<open>i + pan\<close> is below \<open>0\<close> or at least
  \<open>rx->pixels\<close>, and the source sample \<open>pixel_samples[i + pan]\<close> otherwise.
\<close>

theorem pan_offset_substitutes_floor:
  assumes hist: "history st = Some mem"
    and len: "int (length mem) = depth st * bins st"
    and hd: "0 \<le> head st" "head st < depth st"
    and src: "pixels rx \<le> int (length (pixel_samples rx))"
    and i: "0 \<le> i" "i < bins st"
  shows "\<exists>st' mem'. wf_store_row st rx = Some st' \<and> history st' = Some mem'
           \<and> source_sample rx i = Some (mem' ! nat (head st * bins st + i))
           \<and> mem' ! nat (head st * bins st + i) =
               (if i + pan rx < 0 \<or> pixels rx \<le> i + pan rx then floor_db
                else pixel_samples rx ! nat (i + pan rx))"
proof -
  have B: "0 \<le> bins st" using i by linarith
  have row: "0 \<le> head st * bins st" using hd B by simp
  have "(head st + 1) * bins st \<le> depth st * bins st"
    using hd B by (intro mult_right_mono) simp_all
  then have fit: "head st * bins st + bins st \<le> int (length mem)"
    using len by (simp add: algebra_simps)
  from wf_store_row_Some [OF hist src B row fit] obtain mem' where
    push: "wf_store_row st rx =
             Some (st\<lparr>history := Some mem', head := (head st + 1) smod depth st\<rparr>)"
    and new: "\<And>j. j < length mem \<Longrightarrow> mem' ! j =
                 (if head st * bins st \<le> int j \<and> int j < head st * bins st + bins st
                  then delivered_row rx (bins st) ! nat (int j - head st * bins st)
                  else mem ! j)"
    by blast
  define j where "j = nat (head st * bins st + i)"
  have j: "int j = head st * bins st + i" using row i by (simp add: j_def)
  then have jlt: "j < length mem" using fit i by linarith
  have inrow: "head st * bins st \<le> int j \<and> int j < head st * bins st + bins st"
    using j i by linarith
  have off: "nat (int j - head st * bins st) = nat i" using j by simp
  have cell: "mem' ! j =
               (if i + pan rx < 0 \<or> pixels rx \<le> i + pan rx then floor_db
                else pixel_samples rx ! nat (i + pan rx))"
    using new [OF jlt] inrow off i by (simp add: delivered_row_nth)
  then have "source_sample rx i = Some (mem' ! j)"
    using source_sample_Some [OF src, of i] by simp
  with push cell show ?thesis unfolding j_def by auto
qed

theorem pan_offset_substitutes_floor_witness:
  "\<exists>st' mem'. wf_store_row (example_state 2 4 1 [1, 2, 3, 4, 5, 6, 7, 8])
                  ((example_receiver [10, 20, 30, 40] 7100000)\<lparr>pan := 2\<rparr>) = Some st'
     \<and> history st' = Some mem'
     \<and> mem' ! 5 = 40 \<and> mem' ! 6 = floor_db"
proof -
  let ?st = "example_state 2 4 1 [1, 2, 3, 4, 5, 6, 7, 8]"
  let ?rx = "(example_receiver [10, 20, 30, 40] 7100000)\<lparr>pan := 2\<rparr>"
  have h: "history ?st = Some [1, 2, 3, 4, 5, 6, 7, 8]"
    "int (length [1, 2, 3, 4, 5, 6, 7, 8 :: rat]) = depth ?st * bins ?st"
    "0 \<le> head ?st" "head ?st < depth ?st"
    "pixels ?rx \<le> int (length (pixel_samples ?rx))"
    by (simp_all add: example_state_def example_receiver_def)
  have i1: "(0::int) \<le> 1" "1 < bins ?st" and i2: "(0::int) \<le> 2" "2 < bins ?st"
    by (simp_all add: example_state_def)
  from pan_offset_substitutes_floor [OF h i1] obtain st' mem' where
    a: "wf_store_row ?st ?rx = Some st'" "history st' = Some mem'"
      "mem' ! nat (head ?st * bins ?st + 1) =
         (if 1 + pan ?rx < 0 \<or> pixels ?rx \<le> 1 + pan ?rx then floor_db
          else pixel_samples ?rx ! nat (1 + pan ?rx))"
    by blast
  from pan_offset_substitutes_floor [OF h i2] a(1,2) have
    b: "mem' ! nat (head ?st * bins ?st + 2) =
         (if 2 + pan ?rx < 0 \<or> pixels ?rx \<le> 2 + pan ?rx then floor_db
          else pixel_samples ?rx ! nat (2 + pan ?rx))"
    by auto
  have "mem' ! 5 = 40" using a(3) by (simp add: example_state_def example_receiver_def)
  moreover have "mem' ! 6 = floor_db"
    using b by (simp add: example_state_def example_receiver_def)
  ultimately show ?thesis using a(1,2) by blast
qed

section \<open>The rotation amount\<close>







section \<open>The first ticks\<close>

text \<open>
  C5, as the code has it. While the update counter is below 4 before the tick, which
  covers the first four ticks after the state is made, the tick ends after the zoom,
  size and frequency handling: the delivered row is not written, \<open>head\<close> is not advanced
  by the tick (on a tick that changes nothing else, buffer and \<open>head\<close> are as before),
  and a redraw is requested all the same. Neither \<^verbatim>\<open>wf_reset_history\<close> nor the zoom and
  size handling with its reallocation touches the counter.
\<close>

theorem first_ticks_store_nothing:
  assumes "history st \<noteq> None" "update_count st < 4" "2 < w"
  shows "\<exists>st' rx'. waterfall3dss_update st rx f (Some w) = Some (st', rx', True)
           \<and> update_count st' = update_count st + 1
           \<and> head st' = head (fst (wf_track_frequency (wf_sync_geometry st rx w) rx f))
           \<and> history st' = history (fst (wf_track_frequency (wf_sync_geometry st rx w) rx f))
           \<and> (waterfall_zoom st = zoom rx \<and> bins st = w \<and> waterfall_frequency rx = f
                \<and> f \<noteq> 0 \<and> sample_rate rx = waterfall_sample_rate rx
               \<longrightarrow> head st' = head st \<and> history st' = history st)
           \<and> update_count (wf_reset_history st) = update_count st
           \<and> update_count (wf_sync_geometry st rx w) = update_count st"
  using early_tick [OF assms, of rx f] steady_tick_stages [of st rx w f] assms
  by auto

theorem first_ticks_store_nothing_witness:
  "\<exists>st' rx'. waterfall3dss_update
        ((example_state 2 4 1 [1, 2, 3, 4, 5, 6, 7, 8])\<lparr>update_count := 3\<rparr>)
        (example_receiver [10, 20, 30, 40] 7100000) 7100000 (Some 4) = Some (st', rx', True)
     \<and> update_count st' = 4 \<and> head st' = 1
     \<and> history st' = Some [1, 2, 3, 4, 5, 6, 7, 8]"
proof -
  let ?st = "(example_state 2 4 1 [1, 2, 3, 4, 5, 6, 7, 8])\<lparr>update_count := 3\<rparr>"
  let ?rx = "example_receiver [10, 20, 30, 40] 7100000"
  have h: "history ?st \<noteq> None" "update_count ?st < 4" "(2::int) < 4"
    by (simp_all add: example_state_def)
  have steady: "waterfall_zoom ?st = zoom ?rx \<and> bins ?st = 4
      \<and> waterfall_frequency ?rx = 7100000 \<and> (7100000::int) \<noteq> 0
      \<and> sample_rate ?rx = waterfall_sample_rate ?rx"
    by (simp add: example_state_def example_receiver_def)
  from first_ticks_store_nothing [OF h, of ?rx 7100000] steady
  obtain st' rx' where "waterfall3dss_update ?st ?rx 7100000 (Some 4) = Some (st', rx', True)"
    "update_count st' = update_count ?st + 1" "head st' = head ?st" "history st' = history ?st"
    by blast
  then show ?thesis by (simp add: example_state_def)
qed

lemma init_state:
  "0 < pixels rx \<Longrightarrow>
   waterfall3dss_init None rx =
     \<lparr>bins = pixels rx, depth = 120, head = 0,
      history = Some (replicate (nat (120 * pixels rx)) floor_db),
      tilt_angle = 0, zoom_level = 0, dragging = False,
      drag_start_y = 0, drag_start_tilt = 0,
      waterfall_zoom = 0, waterfall_pan = 0,
      update_count = 0, render_count = 0\<rparr>"
  by (simp add: waterfall3dss_init_def WATERFALL_DEPTH_def g_malloc0_def wf_reset_history_Some)

text \<open>
  C5, as the specification has it, fails: on the first tick after
  \<^verbatim>\<open>waterfall3dss_init\<close> and \<^verbatim>\<open>waterfall3dss_gl_realize\<close>, with a widget four pixels wide
  and the row \<open>[1, 2, 3, 4]\<close> delivered, the row is not in the buffer, \<open>head\<close> is still \<open>0\<close>,
  and the redraw is requested.
\<close>

theorem first_tick_not_stored:
  "\<exists>st' rx'. waterfall3dss_update
        (waterfall3dss_gl_realize (waterfall3dss_init None (example_receiver [1, 2, 3, 4] 0)))
        (example_receiver [1, 2, 3, 4] 0) 7100000 (Some 4) = Some (st', rx', True)
     \<and> head st' = 0 \<and> history st' = Some (replicate 480 floor_db)"
proof -
  let ?rx = "example_receiver [1, 2, 3, 4] 0"
  have init: "waterfall3dss_init None ?rx =
     \<lparr>bins = 4, depth = 120, head = 0,
      history = Some (replicate 480 floor_db),
      tilt_angle = 0, zoom_level = 0, dragging = False,
      drag_start_y = 0, drag_start_tilt = 0,
      waterfall_zoom = 0, waterfall_pan = 0,
      update_count = 0, render_count = 0\<rparr>"
    using init_state [of ?rx] by (simp add: example_receiver_def)
  show ?thesis
    unfolding init
    by (simp add: waterfall3dss_update_def waterfall3dss_gl_realize_def wf_sync_geometry_def
        wf_track_frequency_def Let_def example_receiver_def wf_reset_history_Some)
qed

section \<open>The size invariant\<close>

text \<open>
  The state made by \<^verbatim>\<open>waterfall3dss_init\<close> for a receiver with pixels satisfies the
  invariant, every tick keeps it, and a tick whose sample array has \<open>rx->pixels\<close> cells
  always completes.
\<close>

lemma wf_valid_reset: "wf_valid st \<Longrightarrow> wf_valid (wf_reset_history st)"
  by (auto simp: wf_valid_def wf_reset_history_def)

lemma wf_valid_rotate:
  assumes "wf_valid st"
  shows "wf_valid (wf_rotate_history st k)"
proof -
  from assms obtain mem where hist: "history st = Some mem"
    and len: "int (length mem) = depth st * bins st"
    and D: "0 < depth st" and B: "0 < bins st"
    by (auto simp: wf_valid_def)
  have len': "int (length mem) = int (nat (depth st)) * bins st" using len D by simp
  have "length (fold (\<lambda>r. rotate_row (bins st) k (int r)) [0..<nat (depth st)] mem) = length mem"
    using rotate_rows [OF _ len', of "nat (depth st)" k] B by simp
  then show ?thesis using assms hist len by (simp add: wf_valid_def wf_rotate_history_def)
qed

lemma wf_valid_resize:
  assumes "0 < depth st" "0 < w"
  shows "wf_valid (wf_reset_history
           (st\<lparr>bins := w, history := g_malloc0 (nat (depth st * w))\<rparr>))"
proof -
  have pos: "0 < depth st * w" using assms by simp
  then have nz: "nat (depth st * w) \<noteq> 0" and rt: "int (nat (depth st * w)) = depth st * w"
    by linarith+
  show ?thesis
    using assms nz rt by (simp add: wf_valid_def wf_reset_history_def g_malloc0_def)
qed

lemma wf_valid_sync:
  assumes "wf_valid st" "0 < w"
  shows "wf_valid (wf_sync_geometry st rx w)"
proof -
  define s1 where "s1 = (if waterfall_zoom st \<noteq> zoom rx
                then wf_reset_history (st\<lparr>waterfall_zoom := zoom rx\<rparr>) else st)"
  define s2 where "s2 = (if waterfall_pan s1 \<noteq> pan rx then s1\<lparr>waterfall_pan := pan rx\<rparr> else s1)"
  have "wf_valid (st\<lparr>waterfall_zoom := zoom rx\<rparr>)" using assms(1) by (simp add: wf_valid_def)
  then have v1: "wf_valid s1" using assms(1) by (simp add: s1_def wf_valid_reset)
  then have v2: "wf_valid s2" by (simp add: s2_def wf_valid_def)
  then have D: "0 < depth s2" by (simp add: wf_valid_def)
  have "wf_sync_geometry st rx w =
          (if bins s2 \<noteq> w \<or> history s2 = None
           then wf_reset_history (s2\<lparr>bins := w, history := g_malloc0 (nat (depth s2 * w))\<rparr>)
           else s2)"
    by (simp add: wf_sync_geometry_def Let_def s1_def s2_def)
  then show ?thesis using v2 wf_valid_resize [OF D assms(2)] by simp
qed

lemma wf_valid_track:
  assumes "wf_valid st"
  shows "wf_valid (fst (wf_track_frequency st rx f))"
  using assms by (simp add: wf_track_frequency_def Let_def wf_valid_reset wf_valid_rotate)

lemma copy_row_length:
  "copy_row rx row is mem = Some mem' \<Longrightarrow> length mem' = length mem"
  by (induction "is" arbitrary: mem) (auto split: option.splits)

lemma wf_valid_store:
  assumes "wf_valid st" "wf_store_row st rx = Some st'"
  shows "wf_valid st'"
proof -
  from assms(1) have D: "0 < depth st" and h: "0 \<le> head st" "head st < depth st"
    by (simp_all add: wf_valid_def)
  have "(head st + 1) smod depth st = (head st + 1) mod depth st"
    using h D by (simp add: smod_nonneg)
  then have "0 \<le> (head st + 1) smod depth st" "(head st + 1) smod depth st < depth st"
    using D by simp_all
  then show ?thesis
    using assms by (auto simp: wf_valid_def wf_store_row_def split: option.splits
        dest: copy_row_length)
qed

lemma wf_valid_update:
  assumes "wf_valid st" "waterfall3dss_update st rx f widget = Some (st', rx', queued)"
  shows "wf_valid st'"
proof -
  define w where "w = (case widget of None \<Rightarrow> 800 | Some x \<Rightarrow> if x \<le> 0 then 800 else x)"
  note upd = update_unfold [OF w_def, of st rx f]
  show ?thesis
  proof (cases "w \<le> 2")
    case True
    then show ?thesis using assms unfolding upd by simp
  next
    case False
    define s where "s = (fst (wf_track_frequency (wf_sync_geometry st rx w) rx f))
                          \<lparr>update_count := update_count st + 1\<rparr>"
    have "wf_valid (fst (wf_track_frequency (wf_sync_geometry st rx w) rx f))"
      using assms(1) False by (intro wf_valid_track wf_valid_sync) simp_all
    then have vs: "wf_valid s" by (simp add: s_def wf_valid_def)
    have "st' = st \<or> st' = s
          \<or> wf_store_row s (snd (wf_track_frequency (wf_sync_geometry st rx w) rx f)) = Some st'"
      using assms(2) unfolding upd s_def [symmetric]
      by (auto split: if_splits option.splits)
    then show ?thesis using vs assms(1) wf_valid_store by blast
  qed
qed

lemma wf_valid_init:
  "0 < pixels rx \<Longrightarrow> wf_valid (waterfall3dss_init None rx)"
  by (simp add: init_state wf_valid_def)

lemma wf_valid_realize: "wf_valid st \<Longrightarrow> wf_valid (waterfall3dss_gl_realize st)"
  by (simp add: wf_valid_def waterfall3dss_gl_realize_def)

lemma wf_store_row_in_range:
  assumes "wf_valid st" "pixels rx \<le> int (length (pixel_samples rx))"
  shows "\<exists>st'. wf_store_row st rx = Some st'"
proof -
  from assms(1) obtain mem where hist: "history st = Some mem"
    and len: "int (length mem) = depth st * bins st"
    and B: "0 < bins st" and h: "0 \<le> head st" "head st < depth st"
    by (auto simp: wf_valid_def)
  have row: "0 \<le> head st * bins st" using h B by simp
  have "(head st + 1) * bins st \<le> depth st * bins st"
    using h B by (intro mult_right_mono) simp_all
  then have fit: "head st * bins st + bins st \<le> int (length mem)"
    using len by (simp add: algebra_simps)
  from wf_store_row_Some [OF hist assms(2) _ row fit] B show ?thesis by auto
qed

lemma update_returns:
  assumes "wf_valid st" "pixels rx \<le> int (length (pixel_samples rx))"
  shows "\<exists>res. waterfall3dss_update st rx f widget = Some res"
proof -
  define w where "w = (case widget of None \<Rightarrow> 800 | Some x \<Rightarrow> if x \<le> 0 then 800 else x)"
  note upd = update_unfold [OF w_def, of st rx f]
  show ?thesis
  proof (cases "w \<le> 2")
    case True
    then show ?thesis unfolding upd by auto
  next
    case False
    define s where "s = (fst (wf_track_frequency (wf_sync_geometry st rx w) rx f))
                          \<lparr>update_count := update_count st + 1\<rparr>"
    define r where "r = snd (wf_track_frequency (wf_sync_geometry st rx w) rx f)"
    have "wf_valid (fst (wf_track_frequency (wf_sync_geometry st rx w) rx f))"
      using assms(1) False by (intro wf_valid_track wf_valid_sync) simp_all
    then have vs: "wf_valid s" by (simp add: s_def wf_valid_def)
    have "pixels r = pixels rx" "pixel_samples r = pixel_samples rx"
      by (simp_all add: r_def wf_track_frequency_def Let_def)
    then obtain st' where "wf_store_row s r = Some st'"
      using wf_store_row_in_range [OF vs, of r] assms(2) by auto
    then show ?thesis
      unfolding upd s_def [symmetric] r_def [symmetric] by auto
  qed
qed

section \<open>The resampler\<close>

lemma bin_f_of_nonneg:
  assumes "0 \<le> x" "2 \<le> W" "2 \<le> B"
  shows "0 \<le> bin_f_of W B x"
proof -
  have den: "1 \<le> to_float (of_int (W - 1))" using assms by (intro to_float_ge_1) simp
  have sc: "1 \<le> to_float (of_int (B - 1))" using assms by (intro to_float_ge_1) simp
  have "0 \<le> to_float (of_int x)" using assms by (intro to_float_nonneg) simp
  then have "0 \<le> to_float (of_int x) / to_float (of_int (W - 1))"
    using den by (intro divide_nonneg_nonneg) simp_all
  then have "0 \<le> to_float (to_float (of_int x) / to_float (of_int (W - 1)))"
    by (rule to_float_nonneg)
  then have "0 \<le> to_float (to_float (of_int x) / to_float (of_int (W - 1)))
                  * to_float (of_int (B - 1))"
    using sc by (intro mult_nonneg_nonneg) simp_all
  then show ?thesis unfolding bin_f_of_def by (rule to_float_nonneg)
qed

lemma bin_f_of_mono:
  assumes "0 \<le> x1" "x1 \<le> x2" "2 \<le> W" "2 \<le> B"
  shows "bin_f_of W B x1 \<le> bin_f_of W B x2"
proof -
  have den: "1 \<le> to_float (of_int (W - 1))" using assms by (intro to_float_ge_1) simp
  have sc: "1 \<le> to_float (of_int (B - 1))" using assms by (intro to_float_ge_1) simp
  have n0: "0 \<le> to_float (of_int x1)" using assms by (intro to_float_nonneg) simp
  have n: "to_float (of_int x1) \<le> to_float (of_int x2)"
    using assms by (intro to_float_mono) simp_all
  have q0: "0 \<le> to_float (of_int x1) / to_float (of_int (W - 1))"
    using n0 den by (intro divide_nonneg_nonneg) simp_all
  have q: "to_float (of_int x1) / to_float (of_int (W - 1))
             \<le> to_float (of_int x2) / to_float (of_int (W - 1))"
    using n den by (intro divide_right_mono) simp_all
  have r0: "0 \<le> to_float (to_float (of_int x1) / to_float (of_int (W - 1)))"
    using q0 by (rule to_float_nonneg)
  have r: "to_float (to_float (of_int x1) / to_float (of_int (W - 1)))
             \<le> to_float (to_float (of_int x2) / to_float (of_int (W - 1)))"
    using q0 q by (rule to_float_mono)
  have m0: "0 \<le> to_float (to_float (of_int x1) / to_float (of_int (W - 1)))
                  * to_float (of_int (B - 1))"
    using r0 sc by (intro mult_nonneg_nonneg) simp_all
  have m: "to_float (to_float (of_int x1) / to_float (of_int (W - 1)))
               * to_float (of_int (B - 1))
             \<le> to_float (to_float (of_int x2) / to_float (of_int (W - 1)))
               * to_float (of_int (B - 1))"
    using r sc by (intro mult_right_mono) simp_all
  show ?thesis unfolding bin_f_of_def using m0 m by (rule to_float_mono)
qed

lemma bin_index_floor:
  assumes "0 \<le> x" "2 \<le> W" "2 \<le> B"
  shows "bin_index W B x = max 0 (min (B - 2) \<lfloor>bin_f_of W B x\<rfloor>)"
proof -
  from bin_f_of_nonneg [OF assms] have nn: "0 \<le> bin_f_of W B x" .
  then have c: "c_int (bin_f_of W B x) = \<lfloor>bin_f_of W B x\<rfloor>" by (simp add: c_int_def)
  have "0 \<le> \<lfloor>bin_f_of W B x\<rfloor>" using nn by simp
  then show ?thesis unfolding bin_index_def Let_def c using assms(3) by auto
qed

lemma bin_f_of_first: "bin_f_of W B 0 = 0"
  by (simp add: bin_f_of_def)

lemma bin_f_of_last:
  assumes "2 \<le> W" "2 \<le> B" "B \<le> 16777216"
  shows "bin_f_of W B (W - 1) = of_int (B - 1)"
proof -
  have den: "1 \<le> to_float (of_int (W - 1))" using assms by (intro to_float_ge_1) simp
  then have one: "to_float (of_int (W - 1)) / to_float (of_int (W - 1)) = 1" by simp
  have f1: "to_float 1 = 1" using to_float_of_int [of 1] by simp
  have sc: "to_float (of_int (B - 1)) = of_int (B - 1)"
    using assms by (intro to_float_of_int) simp
  show ?thesis by (simp only: bin_f_of_def one f1 sc mult_1)
qed

text \<open>
  C6, as the code has it. For a screen width \<open>W \<ge> 2\<close> and \<open>B \<ge> 2\<close> bins, the source bin of
  column \<open>x\<close> in \<open>[0, W)\<close> is \<open>floor(x / (W - 1) * (B - 1))\<close> clamped to \<open>[0, B - 2]\<close>, where
  the operands, the quotient and the product are each rounded to \<^verbatim>\<open>float\<close>; the mapping is
  monotone and column \<open>0\<close> reads bin \<open>0\<close>; column \<open>W - 1\<close> reads bin \<open>B - 2\<close> when \<open>B\<close> is at
  most \<open>2^24\<close>, so that \<^verbatim>\<open>float\<close> holds \<open>B - 1\<close> exactly; and both rows of a strip, of ages \<open>d\<close>
  and \<open>d + 1\<close>, are read through this same mapping.
\<close>

theorem resampler_monotone:
  assumes W: "2 \<le> W" and B: "2 \<le> bins st"
    and x: "0 \<le> x" "x < W"
    and xs: "0 \<le> x1" "x1 < x2" "x2 < W"
  shows "bin_index W (bins st) x =
           max 0 (min (bins st - 2)
             \<lfloor>to_float (to_float (to_float (of_int x) / to_float (of_int (W - 1)))
                          * to_float (of_int (bins st - 1)))\<rfloor>)
       \<and> bin_index W (bins st) x1 \<le> bin_index W (bins st) x2
       \<and> bin_index W (bins st) 0 = 0
       \<and> (bins st \<le> 16777216 \<longrightarrow> bin_index W (bins st) (W - 1) = bins st - 2)
       \<and> fst (resample_strip st mem W d) ! nat x =
           mem ! nat (row_index st d * bins st + bin_index W (bins st) x)
       \<and> snd (resample_strip st mem W d) ! nat x =
           mem ! nat (row_index st (d + 1) * bins st + bin_index W (bins st) x)"
proof -
  have formula: "bin_index W (bins st) x =
           max 0 (min (bins st - 2)
             \<lfloor>to_float (to_float (to_float (of_int x) / to_float (of_int (W - 1)))
                          * to_float (of_int (bins st - 1)))\<rfloor>)"
    using bin_index_floor [OF x(1) W B] by (simp only: bin_f_of_def)
  have x2: "0 \<le> x2" using xs by linarith
  have "x1 \<le> x2" using xs by simp
  from bin_f_of_mono [OF xs(1) this W B]
  have "\<lfloor>bin_f_of W (bins st) x1\<rfloor> \<le> \<lfloor>bin_f_of W (bins st) x2\<rfloor>" by (rule floor_mono)
  then have mono: "bin_index W (bins st) x1 \<le> bin_index W (bins st) x2"
    unfolding bin_index_floor [OF xs(1) W B] bin_index_floor [OF x2 W B] by simp
  have first: "bin_index W (bins st) 0 = 0"
    using B by (simp add: bin_index_def bin_f_of_first)
  have last: "bins st \<le> 16777216 \<longrightarrow> bin_index W (bins st) (W - 1) = bins st - 2"
  proof
    assume "bins st \<le> 16777216"
    from bin_f_of_last [OF W B this]
    have "c_int (bin_f_of W (bins st) (W - 1)) = bins st - 1"
      using B by (simp add: c_int_def)
    then show "bin_index W (bins st) (W - 1) = bins st - 2"
      by (simp add: bin_index_def)
  qed
  have xn: "nat x < nat W" "int (nat x) = x" using x by simp_all
  have row0: "fst (resample_strip st mem W d) ! nat x =
           mem ! nat (row_index st d * bins st + bin_index W (bins st) x)"
    using xn by (simp add: resample_strip_def Let_def row_index_def)
  have "head st - (d + 1) - 1 = head st - d - 2" by simp
  then have row1: "snd (resample_strip st mem W d) ! nat x =
           mem ! nat (row_index st (d + 1) * bins st + bin_index W (bins st) x)"
    using xn by (simp add: resample_strip_def Let_def row_index_def)
  from formula mono first last row0 row1 show ?thesis by blast
qed

text \<open>
  A display of 4 rows of 4 bins drawn 5 pixels wide: the columns read the bins
  \<open>0, 0, 1, 2, 2\<close>, and the first strip reads them from the rows 0 and 3.
\<close>

theorem resampler_monotone_witness:
  "bin_index 5 4 2 = 1
   \<and> bin_index 5 4 1 \<le> bin_index 5 4 3
   \<and> bin_index 5 4 0 = 0
   \<and> bin_index 5 4 (5 - 1) = 4 - 2
   \<and> resample_strip
        (example_state 4 4 1 [1, 2, 3, 4, 5, 6, 7, 8, 9, 10, 11, 12, 13, 14, 15, 16])
        [1, 2, 3, 4, 5, 6, 7, 8, 9, 10, 11, 12, 13, 14, 15, 16] 5 0
        = ([1, 1, 2, 3, 3], [13, 13, 14, 15, 15])"
proof -
  let ?mem = "[1, 2, 3, 4, 5, 6, 7, 8, 9, 10, 11, 12, 13, 14, 15, 16 :: rat]"
  let ?st = "example_state 4 4 1 ?mem"
  have h: "(2::int) \<le> 5" "2 \<le> bins ?st" "(0::int) \<le> 2" "(2::int) < 5"
    "(0::int) \<le> 1" "(1::int) < 3" "(3::int) < 5"
    by (simp_all add: example_state_def)
  note r = resampler_monotone [OF h, of ?mem 0]
  have b: "bins ?st = 4" by (simp add: example_state_def)
  have "bin_index 5 4 2 = 1" by code_simp
  moreover have "resample_strip ?st ?mem 5 0 = ([1, 1, 2, 3, 3], [13, 13, 14, 15, 15])"
    by code_simp
  ultimately show ?thesis using r unfolding b by simp
qed

text \<open>
  C6, as the specification has it, fails: with 23 bins drawn 23 pixels wide, column 13
  reads bin 12. The quotient \<open>13 / 22\<close> rounds down in \<^verbatim>\<open>float\<close>, its product with 22 rounds
  to the \<^verbatim>\<open>float\<close> just below 13, and the cast cuts that to 12, where
  \<open>floor(13 / 22 * 22)\<close> is 13.
\<close>

theorem resampler_not_exact_floor:
  "bin_index 23 23 13 = 12
   \<and> max 0 (min (23 - 2) \<lfloor>of_int 13 / of_int (23 - 1) * of_int (23 - 1) :: rat\<rfloor>) = (13::int)"
  by code_simp

text \<open>
  The last column needs the bound on \<open>B\<close>: \<^verbatim>\<open>float\<close> holds no odd number above \<open>2^24\<close>, and
  with \<open>2^26 + 4\<close> bins the last column would read bin \<open>2^26\<close>, not \<open>2^26 + 2\<close>.
\<close>

lemma resampler_last_bin_of_wide_row:
  "bin_index 5 67108868 (5 - 1) = 67108864"
  by code_simp

section \<open>The colour and height of a sample\<close>

lemma sample_to_color_factored:
  "sample_to_color rx sample_db dist01 =
     (let p = level rx sample_db
      in if p < noise_threshold then (0, 0, 0, 1, 0)
         else
           (let signal = (p - noise_threshold) / (1 - noise_threshold) *
                         ((p - noise_threshold) / (1 - noise_threshold));
                (r, g, b) = base_color (waterfall3dss_palette rx) dist01
            in (r * signal, g * signal, b * signal, 1, clampf (signal * (18 / 10)) 0 1)))"
  unfolding sample_to_color_def level_def base_color_def Let_def by (rule refl)

lemma color_from_palette_full:
  "color_from_palette palette 1 =
     (if palette = 0 then (1, 1 / 2, 0)
      else if palette = 1 then (3 / 10, 1, 1)
      else if palette = 2 then (2 / 10, 1, 1 / 10)
      else if palette = 3 then (1, 1, 1)
      else if palette = 4 then (1, 1, 1)
      else if palette = 5 then (1, 1 / 2, 1 / 2)
      else if palette = 6 then (1, 0, 0)
      else (1, 1, 1))"
  by (simp add: color_from_palette_def clampf_def Let_def)

lemma fade_nonneg:
  fixes d t :: rat
  assumes "0 \<le> d" "d \<le> 1" "0 \<le> t"
  shows "0 \<le> 1 + d * (t - 1)"
proof -
  have "0 \<le> d * t" using assms by simp
  then have "0 \<le> (1 - d) + d * t" using assms by linarith
  then show ?thesis by (simp add: algebra_simps)
qed

lemma base_color_nonneg:
  assumes d: "0 \<le> dist01" "dist01 \<le> 1"
  shows "0 \<le> fst (base_color palette dist01)
       \<and> 0 \<le> fst (snd (base_color palette dist01))
       \<and> 0 \<le> snd (snd (base_color palette dist01))"
proof (cases "palette = 6")
  case True
  consider "dist01 < 33 / 100" | "33 / 100 \<le> dist01" "dist01 < 66 / 100" | "66 / 100 \<le> dist01"
    by linarith
  then show ?thesis
  proof cases
    case 1
    with True d show ?thesis by (simp add: base_color_def Let_def)
  next
    case 2
    with True d show ?thesis by (simp add: base_color_def Let_def)
  next
    case 3
    with True d show ?thesis by (simp add: base_color_def Let_def)
  qed
next
  case False
  then show ?thesis
    using d by (simp add: base_color_def color_from_palette_full fade_nonneg)
qed

lemma level_range: "0 \<le> level rx s \<and> level rx s \<le> 1"
  by (simp add: level_def clampf_def)

lemma signal_range:
  fixes p :: rat
  assumes "35 / 100 \<le> p" "p \<le> 1"
  shows "0 \<le> (p - 35 / 100) / (1 - 35 / 100) * ((p - 35 / 100) / (1 - 35 / 100))"
    and "(p - 35 / 100) / (1 - 35 / 100) * ((p - 35 / 100) / (1 - 35 / 100)) \<le> 1"
proof -
  define s where "s = (p - 35 / 100) / (1 - 35 / 100)"
  have s: "0 \<le> s" "s \<le> 1" using assms by (simp_all add: s_def)
  show "0 \<le> (p - 35 / 100) / (1 - 35 / 100) * ((p - 35 / 100) / (1 - 35 / 100))"
    using s unfolding s_def [symmetric] by simp
  have "s * s \<le> 1 * 1" using s by (intro mult_mono) simp_all
  then show "(p - 35 / 100) / (1 - 35 / 100) * ((p - 35 / 100) / (1 - 35 / 100)) \<le> 1"
    unfolding s_def [symmetric] by simp
qed

text \<open>
  C7. With distinct configured bounds (equal bounds make the C code divide by zero) and a
  depth \<open>dist01\<close> in \<open>[0, 1]\<close>: a sample whose level \<open>p\<close> is below the noise threshold maps to
  black with height \<open>0\<close>; a sample with \<open>p = 1\<close> maps to height \<open>1\<close> and to the unscaled base
  colour of the palette, and no sample gets a larger height or a larger colour channel
  at that depth, whatever the palette.
\<close>

theorem color_height_boundaries:
  assumes bounds: "waterfall_low rx \<noteq> waterfall_high rx"
    and d: "0 \<le> dist01" "dist01 \<le> 1"
  shows "(level rx sample_db < noise_threshold \<longrightarrow>
            sample_to_color rx sample_db dist01 = (0, 0, 0, 1, 0))
       \<and> (level rx sample_db = 1 \<longrightarrow>
            (\<exists>r g b. base_color (waterfall3dss_palette rx) dist01 = (r, g, b)
               \<and> sample_to_color rx sample_db dist01 = (r, g, b, 1, 1)
               \<and> (\<forall>s. \<exists>r' g' b' h'. sample_to_color rx s dist01 = (r', g', b', 1, h')
                      \<and> r' \<le> r \<and> g' \<le> g \<and> b' \<le> b \<and> h' \<le> 1)))"
proof (intro conjI impI)
  assume "level rx sample_db < noise_threshold"
  then show "sample_to_color rx sample_db dist01 = (0, 0, 0, 1, 0)"
    by (simp add: sample_to_color_factored Let_def)
next
  assume full: "level rx sample_db = 1"
  obtain r g b where base: "base_color (waterfall3dss_palette rx) dist01 = (r, g, b)"
    by (cases "base_color (waterfall3dss_palette rx) dist01") auto
  have nonneg: "0 \<le> r" "0 \<le> g" "0 \<le> b"
    using base_color_nonneg [OF d, of "waterfall3dss_palette rx"] base by simp_all
  have top: "sample_to_color rx sample_db dist01 = (r, g, b, 1, 1)"
    using full base by (simp add: sample_to_color_factored Let_def noise_threshold_def clampf_def)
  have below: "\<exists>r' g' b' h'. sample_to_color rx s dist01 = (r', g', b', 1, h')
                      \<and> r' \<le> r \<and> g' \<le> g \<and> b' \<le> b \<and> h' \<le> 1" for s
  proof (cases "level rx s < noise_threshold")
    case True
    then have "sample_to_color rx s dist01 = (0, 0, 0, 1, 0)"
      by (simp add: sample_to_color_factored Let_def)
    with nonneg show ?thesis by simp
  next
    case False
    define sg where "sg = (level rx s - 35 / 100) / (1 - 35 / 100)
                          * ((level rx s - 35 / 100) / (1 - 35 / 100))"
    have p: "35 / 100 \<le> level rx s" "level rx s \<le> 1"
      using False level_range [of rx s] by (simp_all add: noise_threshold_def)
    have sg: "0 \<le> sg" "sg \<le> 1" using signal_range [OF p] by (simp_all add: sg_def)
    have out: "sample_to_color rx s dist01 = (r * sg, g * sg, b * sg, 1, clampf (sg * (18 / 10)) 0 1)"
      using False base by (simp add: sample_to_color_factored Let_def noise_threshold_def sg_def)
    have "r * sg \<le> r * 1" "g * sg \<le> g * 1" "b * sg \<le> b * 1"
      using nonneg sg by (simp_all add: mult_left_le)
    moreover have "clampf (sg * (18 / 10)) 0 1 \<le> 1" by (simp add: clampf_def)
    ultimately show ?thesis using out by simp
  qed
  from base top below
  show "\<exists>r g b. base_color (waterfall3dss_palette rx) dist01 = (r, g, b)
               \<and> sample_to_color rx sample_db dist01 = (r, g, b, 1, 1)
               \<and> (\<forall>s. \<exists>r' g' b' h'. sample_to_color rx s dist01 = (r', g', b', 1, h')
                      \<and> r' \<le> r \<and> g' \<le> g \<and> b' \<le> b \<and> h' \<le> 1)"
    by blast
qed

theorem color_height_boundaries_witness:
  "sample_to_color (example_receiver [0, 0, 0, 0] 7100000) (- 100) (1 / 2) = (0, 0, 0, 1, 0)
   \<and> sample_to_color (example_receiver [0, 0, 0, 0] 7100000) (- 40) (1 / 2)
        = (1, 3 / 4, 1 / 2, 1, 1)
   \<and> sample_to_color ((example_receiver [0, 0, 0, 0] 7100000)\<lparr>waterfall3dss_palette := 6\<rparr>)
        (- 40) (1 / 2) = (151 / 330, 149 / 330, 1, 1, 1)"
proof -
  let ?rx = "example_receiver [0, 0, 0, 0] 7100000"
  let ?rx6 = "?rx\<lparr>waterfall3dss_palette := 6\<rparr>"
  have h: "waterfall_low ?rx \<noteq> waterfall_high ?rx" "waterfall_low ?rx6 \<noteq> waterfall_high ?rx6"
    "(0::rat) \<le> 1 / 2" "(1 / 2 :: rat) \<le> 1"
    by (simp_all add: example_receiver_def)
  have lv: "level ?rx (- 100) < noise_threshold" "level ?rx (- 40) = 1" "level ?rx6 (- 40) = 1"
    by (simp_all add: level_def clampf_def example_receiver_def noise_threshold_def)
  have b: "base_color (waterfall3dss_palette ?rx) (1 / 2) = (1, 3 / 4, 1 / 2)"
    by (simp add: base_color_def color_from_palette_full example_receiver_def)
  have b6: "base_color (waterfall3dss_palette ?rx6) (1 / 2)
              = (151 / 330, 149 / 330, 1)"
    by (simp add: base_color_def Let_def example_receiver_def)
  from color_height_boundaries [OF h(1) h(3,4), of "- 100"] lv(1)
  have "sample_to_color ?rx (- 100) (1 / 2) = (0, 0, 0, 1, 0)" by blast
  moreover from color_height_boundaries [OF h(1) h(3,4), of "- 40"] lv(2) b
  have "sample_to_color ?rx (- 40) (1 / 2) = (1, 3 / 4, 1 / 2, 1, 1)" by auto
  moreover from color_height_boundaries [OF h(2) h(3,4), of "- 40"] lv(3) b6
  have "sample_to_color ?rx6 (- 40) (1 / 2)
          = (151 / 330, 149 / 330, 1, 1, 1)" by auto
  ultimately show ?thesis by blast
qed

section \<open>Automatic thresholds\<close>

lemma sample_to_color_ignores_automatic:
  "sample_to_color (rx\<lparr>waterfall_automatic := a\<rparr>) sample_db dist01
     = sample_to_color rx sample_db dist01"
  by (simp add: sample_to_color_def)

text \<open>
  C10. \<^verbatim>\<open>sample_to_color\<close> never reads \<^verbatim>\<open>rx->waterfall_automatic\<close>. With the flag set, the
  configured bounds \<open>-100\<close> and \<open>-40\<close>, and the row \<open>[-120, -120, -120, -80]\<close> (mean \<open>-110\<close>), the
  2D path takes the bounds \<open>-115\<close> and \<open>-60\<close>, under which the sample \<open>-80\<close> has a colour and
  a height; the 3DSS mapper keeps \<open>-100\<close> and \<open>-40\<close> and paints it black and flat.
\<close>

theorem automatic_bounds_not_used_by_3dss:
  "waterfall_thresholds_2d
      ((example_receiver [- 120, - 120, - 120, - 80] 7100000)\<lparr>waterfall_automatic := 1\<rparr>) 4 0
     = (- 115, - 60)
   \<and> sample_to_color
      ((example_receiver [- 120, - 120, - 120, - 80] 7100000)\<lparr>waterfall_automatic := 1\<rparr>)
      (- 80) 0 = (0, 0, 0, 1, 0)
   \<and> sample_to_color
      ((example_receiver [- 120, - 120, - 120, - 80] 7100000)
         \<lparr>waterfall_low := - 115, waterfall_high := - 60, waterfall_automatic := 1\<rparr>)
      (- 80) 0 = (3969 / 20449, 3969 / 20449, 3969 / 20449, 1, 35721 / 102245)"
proof -
  have "waterfall_thresholds_2d
      ((example_receiver [- 120, - 120, - 120, - 80] 7100000)\<lparr>waterfall_automatic := 1\<rparr>) 4 0
     = (- 115, - 60)"
    by code_simp
  moreover have "sample_to_color
      ((example_receiver [- 120, - 120, - 120, - 80] 7100000)\<lparr>waterfall_automatic := 1\<rparr>)
      (- 80) 0 = (0, 0, 0, 1, 0)"
    by (simp add: sample_to_color_factored level_def Let_def clampf_def noise_threshold_def
        example_receiver_def)
  moreover have "sample_to_color
      ((example_receiver [- 120, - 120, - 120, - 80] 7100000)
         \<lparr>waterfall_low := - 115, waterfall_high := - 60, waterfall_automatic := 1\<rparr>)
      (- 80) 0 = (3969 / 20449, 3969 / 20449, 3969 / 20449, 1, 35721 / 102245)"
    by (simp add: sample_to_color_factored level_def Let_def clampf_def noise_threshold_def
        example_receiver_def base_color_def color_from_palette_def)
  ultimately show ?thesis by blast
qed

section \<open>Camera state stays clamped\<close>

lemma clampf_bounds: "a \<le> b \<Longrightarrow> a \<le> clampf x a b \<and> clampf x a b \<le> b"
  by (simp add: clampf_def)

lemma camera_in_range_realize: "camera_in_range (waterfall3dss_gl_realize st)"
  by (simp add: camera_in_range_def waterfall3dss_gl_realize_def)

lemma camera_in_range_dispatch:
  assumes "camera_in_range st"
  shows "camera_in_range (dispatch st ev)"
proof (cases ev)
  case (ButtonPress button y)
  with assms show ?thesis
    by (simp add: camera_in_range_def waterfall3dss_button_press_def)
next
  case (MotionNotify y)
  with assms show ?thesis
    by (simp add: camera_in_range_def waterfall3dss_motion_def Let_def clampf_def)
next
  case (ButtonRelease button)
  with assms show ?thesis
    by (simp add: camera_in_range_def waterfall3dss_button_release_def)
next
  case (ScrollEvent direction delta_y)
  with assms show ?thesis
    by (simp add: camera_in_range_def waterfall3dss_scroll_def Let_def clampf_def)
qed

text \<open>
  C8. From the state that \<^verbatim>\<open>waterfall3dss_gl_realize\<close> sets up (tilt 2.8, zoom 2.0), after
  any sequence of button, motion and scroll events, with any button numbers, pointer
  positions and smooth deltas however large, \<open>tilt_angle\<close> is in \<open>[0, 5]\<close> and
  \<open>zoom_level\<close> is in \<open>[1, 4]\<close>.
\<close>

theorem camera_state_clamped:
  "camera_in_range (foldl dispatch (waterfall3dss_gl_realize st) evs)"
proof -
  have "camera_in_range s \<Longrightarrow> camera_in_range (foldl dispatch s evs)" for s
  proof (induction evs arbitrary: s)
    case Nil
    then show ?case by simp
  next
    case (Cons ev evs)
    from Cons.prems have "camera_in_range (dispatch s ev)"
      by (rule camera_in_range_dispatch)
    then show ?case using Cons.IH by simp
  qed
  then show ?thesis using camera_in_range_realize by blast
qed

end
